theory Spec2Isabelle
  imports Complex_Main
begin

section \<open>Bytes, text and the string primitives the parser calls\<close>

text \<open>
  A \<open>Buffer\<close> is a sequence of bytes and a JavaScript string a sequence of
  characters. Both are modelled as \<open>char list\<close>: a \<open>char\<close> is an 8-bit value,
  and the only text the parser ever looks at is the result of
  \<open>toString('ascii')\<close>, whose characters are all below 128.
\<close>

type_synonym buffer = "char list"

definition CR :: char where
  "CR = CHR 0x0D"

definition LF :: char where
  "LF = CHR 0x0A"

definition CRLF :: string where
  "CRLF = [CR, LF]"

definition CRLFCRLF :: string where
  "CRLFCRLF = [CR, LF, CR, LF]"

text \<open>
  \<open>s.indexOf(pat)\<close> of a string or a buffer: the position of the first occurrence,
  or \<open>-1\<close>.
\<close>

fun indexOf :: "char list \<Rightarrow> char list \<Rightarrow> int" where
  "indexOf [] pat = (if pat = [] then 0 else -1)"
| "indexOf (c # cs) pat =
     (if take (length pat) (c # cs) = pat then 0
      else (let i = indexOf cs pat in if i = -1 then -1 else i + 1))"

text \<open>
  \<open>Buffer.concat(list, totalLength)\<close>: the buffers of the list one after the other,
  cut at \<open>totalLength\<close> bytes, or filled with zero bytes up to it.
\<close>

definition Buffer_concat :: "buffer list \<Rightarrow> nat \<Rightarrow> buffer" where
  "Buffer_concat list totalLength =
     take totalLength (concat list @ replicate (totalLength - length (concat list)) (CHR 0x00))"

text \<open>
  \<open>buf.toString('ascii')\<close>: Node decodes each byte with its highest bit cleared.
\<close>

definition toString_ascii :: "buffer \<Rightarrow> string" where
  "toString_ascii buf =
     map (\<lambda>b. case b of Char b0 b1 b2 b3 b4 b5 b6 b7 \<Rightarrow> Char b0 b1 b2 b3 b4 b5 b6 False) buf"

text \<open>
  \<open>s.split(sep)\<close> with a string separator and no limit. An empty separator gives
  the characters one by one; otherwise the pieces between the occurrences of the
  separator, found from the left, an empty string giving one empty piece.
\<close>

function js_split :: "string \<Rightarrow> string \<Rightarrow> string list" where
  "js_split [] sep = (if sep = [] then [] else [[]])"
| "js_split (c # cs) sep =
     (if sep = [] then map (\<lambda>x. [x]) (c # cs)
      else if take (length sep) (c # cs) = sep
        then [] # js_split (drop (length sep) (c # cs)) sep
      else (case js_split cs sep of
              [] \<Rightarrow> [[c]]
            | piece # pieces \<Rightarrow> (c # piece) # pieces))"
  by pat_completeness auto
termination
  by (relation "measure (\<lambda>(s, sep). length s)") auto

text \<open>\<open>parts.join(sep)\<close>.\<close>

fun js_join :: "string list \<Rightarrow> string \<Rightarrow> string" where
  "js_join [] sep = []"
| "js_join [x] sep = x"
| "js_join (x # y # ys) sep = x @ sep @ js_join (y # ys) sep"

text \<open>
  \<open>s.toLowerCase()\<close> on 7-bit text: only the letters A to Z change, each to the
  character 32 above it (bit 5 set).
\<close>

definition lower_char :: "char \<Rightarrow> char" where
  "lower_char c =
     (let n = (of_char c :: nat)
      in if 65 \<le> n \<and> n \<le> 90
         then (case c of Char b0 b1 b2 b3 b4 b5 b6 b7 \<Rightarrow> Char b0 b1 b2 b3 b4 True b6 b7)
         else c)"

definition toLowerCase :: "string \<Rightarrow> string" where
  "toLowerCase s = map lower_char s"

text \<open>
  The white space and line terminators of ECMAScript that exist in 7-bit text:
  TAB, LF, VT, FF, CR and the space.
\<close>

definition is_space :: "char \<Rightarrow> bool" where
  "is_space c = ((of_char c :: nat) \<in> {9, 10, 11, 12, 13, 32})"

definition trimStart :: "string \<Rightarrow> string" where
  "trimStart s = dropWhile is_space s"

definition trim :: "string \<Rightarrow> string" where
  "trim s = rev (dropWhile is_space (rev (dropWhile is_space s)))"

section \<open>Numeric coercion: the unary plus\<close>

text \<open>
  \<open>+x\<close> applies ToNumber. The result is a Number, a double: not-a-number, an
  infinity (\<open>Infinity True\<close> is the negative one), the negative zero, or \<open>Num q\<close> for
  the double whose value is the rational \<open>q\<close> (\<open>Num 0\<close> is the positive zero).
\<close>

datatype js_number = NaN | Infinity bool | NegativeZero | Num rat

text \<open>
  The Number value for a magnitude \<open>q \<ge> 0\<close> and a sign: \<open>q\<close> is rounded to the nearest
  double, a tie going to the even significand. A double has a significand of 53 bits
  and an exponent from -1022 to 1023, so the spacing of the doubles around \<open>q\<close> is
  \<open>2 ^ p\<close> with \<open>p = max e (-1022) - 52\<close>, where \<open>2 ^ e \<le> q < 2 ^ (e + 1)\<close>, and
  \<open>q\<close> rounds to \<open>n * 2 ^ p\<close> for an integer \<open>n \<le> 2 ^ 53\<close>. The largest double is
  \<open>(2 ^ 53 - 1) * 2 ^ 971\<close>: what is \<open>2 ^ 1024\<close> or more, or rounds to it, is an
  infinity. What rounds to 0 is a zero of the given sign.
\<close>

definition pow2 :: "int \<Rightarrow> rat" where
  "pow2 e = (if 0 \<le> e then 2 ^ nat e else 1 / 2 ^ nat (- e))"

fun bit_length :: "nat \<Rightarrow> nat" where
  "bit_length n = (if n = 0 then 0 else Suc (bit_length (n div 2)))"

definition floor_log2 :: "rat \<Rightarrow> int" where
  "floor_log2 q =
     (let (a, b) = quotient_of q;
          e0 = int (bit_length (nat a)) - int (bit_length (nat b))
      in if pow2 e0 \<le> q then e0 else e0 - 1)"

definition round_half_even :: "rat \<Rightarrow> int" where
  "round_half_even x =
     (let f = \<lfloor>x\<rfloor>; d = x - of_int f
      in if d < 1 / 2 then f else if 1 / 2 < d then f + 1 else if even f then f else f + 1)"

definition zero :: "bool \<Rightarrow> js_number" where
  "zero neg = (if neg then NegativeZero else Num 0)"

definition number_for :: "bool \<Rightarrow> rat \<Rightarrow> js_number" where
  "number_for neg q =
     (if q = 0 then zero neg
      else (let e = floor_log2 q;
                p = max e (- 1022) - 52;
                n = round_half_even (q / pow2 p)
            in if 1023 < e \<or> (e = 1023 \<and> n = 2 ^ 53) then Infinity neg
               else if n = 0 then zero neg
               else Num (if neg then - (of_int n * pow2 p) else of_int n * pow2 p)))"

definition is_digit :: "char \<Rightarrow> bool" where
  "is_digit c = (let n = (of_char c :: nat) in 48 \<le> n \<and> n \<le> 57)"

text \<open>The value of a digit in a base up to 16, if it is one.\<close>

definition digit_value :: "nat \<Rightarrow> char \<Rightarrow> nat option" where
  "digit_value base c =
     (let n = (of_char c :: nat);
          v = (if 48 \<le> n \<and> n \<le> 57 then Some (n - 48)
               else if 97 \<le> n \<and> n \<le> 102 then Some (n - 87)
               else if 65 \<le> n \<and> n \<le> 70 then Some (n - 55)
               else None)
      in case v of None \<Rightarrow> None | Some d \<Rightarrow> if d < base then Some d else None)"

fun digits_value :: "nat \<Rightarrow> string \<Rightarrow> nat \<Rightarrow> nat option" where
  "digits_value base [] acc = Some acc"
| "digits_value base (c # cs) acc =
     (case digit_value base c of
        None \<Rightarrow> None
      | Some d \<Rightarrow> digits_value base cs (acc * base + d))"

text \<open>A non-empty run of digits of the base, and nothing else.\<close>

definition integer_literal :: "nat \<Rightarrow> string \<Rightarrow> nat option" where
  "integer_literal base s = (if s = [] then None else digits_value base s 0)"

text \<open>
  \<open>ExponentPart\<close>: nothing, or \<open>e\<close>/\<open>E\<close>, an optional sign and decimal digits.
\<close>

definition exponent_part :: "string \<Rightarrow> int option" where
  "exponent_part s =
     (case s of
        [] \<Rightarrow> Some 0
      | c # r \<Rightarrow>
          if c = CHR ''e'' \<or> c = CHR ''E'' then
            (case r of
               [] \<Rightarrow> None
             | d # r' \<Rightarrow>
                 if d = CHR ''+'' then map_option int (integer_literal 10 r')
                 else if d = CHR ''-'' then map_option (\<lambda>n. - int n) (integer_literal 10 r')
                 else map_option int (integer_literal 10 r))
          else None)"

text \<open>
  \<open>StrUnsignedDecimalLiteral\<close> other than \<open>Infinity\<close>: digits with an optional
  fraction and exponent, or a dot followed by digits and an optional exponent. The
  result is the mathematical value of the literal, not yet rounded.
\<close>

definition unsigned_decimal :: "string \<Rightarrow> rat option" where
  "unsigned_decimal s =
     (let ip = takeWhile is_digit s;
          r1 = dropWhile is_digit s;
          fp = (case r1 of [] \<Rightarrow> [] | c # r \<Rightarrow> if c = CHR ''.'' then takeWhile is_digit r else []);
          r2 = (case r1 of [] \<Rightarrow> [] | c # r \<Rightarrow> if c = CHR ''.'' then dropWhile is_digit r else r1)
      in if ip = [] \<and> fp = [] then None
         else (case (digits_value 10 (ip @ fp) 0, exponent_part r2) of
                 (Some m, Some e) \<Rightarrow>
                   (let x = e - int (length fp)
                    in Some (if 0 \<le> x then of_nat m * 10 ^ nat x else of_nat m / 10 ^ nat (- x)))
               | _ \<Rightarrow> None))"

definition str_decimal :: "string \<Rightarrow> js_number" where
  "str_decimal s =
     (let neg = (s \<noteq> [] \<and> hd s = CHR ''-'');
          u = (if s \<noteq> [] \<and> (hd s = CHR ''+'' \<or> hd s = CHR ''-'') then tl s else s)
      in if u = ''Infinity'' then Infinity neg
         else (case unsigned_decimal u of
                 None \<Rightarrow> NaN
               | Some q \<Rightarrow> number_for neg q))"

text \<open>
  StringToNumber: white space around the literal is dropped; the empty string is 0; a
  literal is binary, octal or hexadecimal after its prefix, or a signed decimal;
  everything else is not a number.
\<close>

definition to_number :: "string \<Rightarrow> js_number" where
  "to_number str =
     (let s = trim str
      in if s = [] then Num 0
         else if take 2 s = ''0x'' \<or> take 2 s = ''0X'' then
           (case integer_literal 16 (drop 2 s) of
              None \<Rightarrow> NaN
            | Some n \<Rightarrow> number_for False (of_nat n))
         else if take 2 s = ''0o'' \<or> take 2 s = ''0O'' then
           (case integer_literal 8 (drop 2 s) of
              None \<Rightarrow> NaN
            | Some n \<Rightarrow> number_for False (of_nat n))
         else if take 2 s = ''0b'' \<or> take 2 s = ''0B'' then
           (case integer_literal 2 (drop 2 s) of
              None \<Rightarrow> NaN
            | Some n \<Rightarrow> number_for False (of_nat n))
         else str_decimal s)"

text \<open>
  \<open>+parts[1]\<close>: an index past the end reads \<open>undefined\<close>, which coerces to
  not-a-number.
\<close>

definition unary_plus :: "string option \<Rightarrow> js_number" where
  "unary_plus x = (case x of None \<Rightarrow> NaN | Some s \<Rightarrow> to_number s)"

definition at_index :: "'a list \<Rightarrow> nat \<Rightarrow> 'a option" where
  "at_index xs i = (if i < length xs then Some (xs ! i) else None)"

section \<open>The result and the state of one call\<close>

text \<open>
  A header value is a string, or an array of strings once the name has come twice.
  The \<open>headers\<close> object is kept as the list of its own properties in the order
  they were created.
\<close>

datatype header_value = Single string | Multi "string list"

type_synonym headers = "(string \<times> header_value) list"

record connect_response =
  statusCode :: js_number
  statusText :: string
  headers :: headers

record parse_result =
  connect :: connect_response
  buffered :: buffer

text \<open>
  What the promise is rejected with: an \<open>Error\<close> the parser creates with a message,
  or the error object of the stream, handed on as it came.
\<close>

datatype 'e failure = Error string | StreamError 'e

datatype 'e promise = Pending | Resolved parse_result | Rejected "'e failure"

text \<open>
  The closure of one call of \<open>parseProxyResponse\<close> together with the socket it
  reads: \<open>buffers\<close> and \<open>buffersLength\<close> are the two variables of the closure;
  \<open>queue\<close> holds the chunks that \<open>socket.read()\<close> will return, in order, and
  \<open>delivered\<close> records the chunks it has returned; \<open>on_readable\<close>, \<open>on_end\<close>
  and \<open>on_error\<close> say whether \<open>read\<close>, \<open>onend\<close> and \<open>onerror\<close> are registered as
  listeners; \<open>destroyed\<close> is set by \<open>socket.destroy()\<close>.
\<close>

record 'e state =
  buffers :: "buffer list"
  buffersLength :: nat
  queue :: "buffer list"
  delivered :: "buffer list"
  on_readable :: bool
  on_end :: bool
  on_error :: bool
  destroyed :: bool
  promise :: "'e promise"

text \<open>A promise settles once: \<open>resolve\<close> and \<open>reject\<close> on a settled promise do nothing.\<close>

definition resolve :: "parse_result \<Rightarrow> 'e state \<Rightarrow> 'e state" where
  "resolve v st = (if promise st = Pending then st\<lparr>promise := Resolved v\<rparr> else st)"

definition reject :: "'e failure \<Rightarrow> 'e state \<Rightarrow> 'e state" where
  "reject e st = (if promise st = Pending then st\<lparr>promise := Rejected e\<rparr> else st)"

definition destroy :: "'e state \<Rightarrow> 'e state" where
  "destroy st = st\<lparr>destroyed := True\<rparr>"

definition cleanup :: "'e state \<Rightarrow> 'e state" where
  "cleanup st = st\<lparr>on_end := False, on_error := False, on_readable := False\<rparr>"

definition onend :: "'e state \<Rightarrow> 'e state" where
  "onend st =
     reject (Error ''Proxy connection ended before receiving CONNECT response'') (cleanup st)"

definition onerror :: "'e \<Rightarrow> 'e state \<Rightarrow> 'e state" where
  "onerror err st = reject (StreamError err) (cleanup st)"

section \<open>Decoding the header block\<close>

text \<open>
  \<open>headers[key] = value\<close> on the object literal \<open>{}\<close>. The object inherits from
  \<open>Object.prototype\<close>, where \<open>__proto__\<close> is an accessor whose setter ignores a
  value that is neither an object nor null: assigning a string to that key creates no
  property. Every other key becomes, or stays, a property of the object itself.
\<close>

fun update_property :: "string \<Rightarrow> header_value \<Rightarrow> headers \<Rightarrow> headers" where
  "update_property key v [] = [(key, v)]"
| "update_property key v ((k, w) # ps) =
     (if k = key then (k, v) # ps else (k, w) # update_property key v ps)"

definition assign :: "string \<Rightarrow> header_value \<Rightarrow> headers \<Rightarrow> headers" where
  "assign key v h = (if key = ''__proto__'' then h else update_property key v h)"

text \<open>
  The body of the loop over the header lines, for a line with a colon at
  \<open>firstColon\<close>. \<open>headers[key]\<close> reads a string or an array only from a property
  of the object itself: what it inherits is a function or an object, and takes the last
  branch as \<open>undefined\<close> does.
\<close>

definition add_header :: "string \<Rightarrow> nat \<Rightarrow> headers \<Rightarrow> headers" where
  "add_header header firstColon h =
     (let key = toLowerCase (take firstColon header);
          value = trimStart (drop (firstColon + 1) header)
      in case map_of h key of
           Some (Single current) \<Rightarrow> assign key (Multi [current, value]) h
         | Some (Multi current) \<Rightarrow> update_property key (Multi (current @ [value])) h
         | None \<Rightarrow> assign key (Single value) h)"

text \<open>
  The loop \<open>for (const header of headerParts)\<close>: \<open>Inl header\<close> is the early return
  at a line without a colon, \<open>Inr headers\<close> the end of the loop.
\<close>

fun header_loop :: "string list \<Rightarrow> headers \<Rightarrow> string + headers" where
  "header_loop [] h = Inr h"
| "header_loop (header # rest) h =
     (if header = [] then header_loop rest h
      else (let firstColon = indexOf header '':''
            in if firstColon = -1 then Inl header
               else header_loop rest (add_header header (nat firstColon) h)))"

definition invalid_header_message :: "string \<Rightarrow> string" where
  "invalid_header_message header =
     ''Invalid header from proxy CONNECT response: '' @ [CHR 0x22] @ header @ [CHR 0x22]"

text \<open>
  \<open>ondata\<close> from the line that decodes the buffer (the terminator has been found) to
  its end.
\<close>

definition decode :: "buffer \<Rightarrow> 'e state \<Rightarrow> 'e state" where
  "decode buffered' st =
     (case js_split (toString_ascii buffered') CRLF of
        [] \<Rightarrow> reject (Error ''No header received from proxy CONNECT response'') (destroy st)
      | firstLine # headerParts \<Rightarrow>
          if firstLine = [] then
            reject (Error ''No header received from proxy CONNECT response'') (destroy st)
          else
            (let firstLineParts = js_split firstLine '' '';
                 statusCode' = unary_plus (at_index firstLineParts 1);
                 statusText' = js_join (drop 2 firstLineParts) '' ''
             in case header_loop headerParts [] of
                  Inl header \<Rightarrow> reject (Error (invalid_header_message header)) (destroy st)
                | Inr headers' \<Rightarrow>
                    resolve
                      \<lparr>connect =
                         \<lparr>statusCode = statusCode', statusText = statusText', headers = headers'\<rparr>,
                       buffered = buffered'\<rparr>
                      (cleanup st)))"

section \<open>Reading the socket\<close>

text \<open>
  \<open>read\<close> takes what \<open>socket.read()\<close> returns: a chunk, handed to \<open>ondata\<close>, or
  \<open>null\<close>, and then \<open>read\<close> is registered for the next \<open>readable\<close> event.
  \<open>ondata\<close> appends the chunk, looks for the terminator in all the bytes so far, and
  either reads on or decodes.
\<close>

function read :: "'e state \<Rightarrow> 'e state"
  and ondata :: "buffer \<Rightarrow> 'e state \<Rightarrow> 'e state" where
  "read st =
     (case queue st of
        [] \<Rightarrow> st\<lparr>on_readable := True\<rparr>
      | b # q \<Rightarrow> ondata b (st\<lparr>queue := q, delivered := delivered st @ [b]\<rparr>))"
| "ondata b st =
     (let st1 = st\<lparr>buffers := buffers st @ [b], buffersLength := buffersLength st + length b\<rparr>;
          buffered' = Buffer_concat (buffers st1) (buffersLength st1);
          endOfHeaders = indexOf buffered' CRLFCRLF
      in if endOfHeaders = -1 then read st1 else decode buffered' st1)"
  by pat_completeness auto
termination
  by (relation "measure (\<lambda>x. case x of Inl st \<Rightarrow> 2 * length (queue st) + 1
                                    | Inr (b, st) \<Rightarrow> 2 * length (queue st) + 2)") auto

text \<open>
  The call itself: the two listeners are registered on a socket that may already hold
  data, and \<open>read\<close> is called once.
\<close>

definition parseProxyResponse :: "buffer list \<Rightarrow> 'e state" where
  "parseProxyResponse q =
     read \<lparr>buffers = [], buffersLength = 0, queue = q, delivered = [],
           on_readable = False, on_end = True, on_error = True, destroyed = False,
           promise = Pending\<rparr>"

text \<open>
  What the socket does afterwards: data arrives and \<open>readable\<close> is emitted (with no
  chunk when the event comes with nothing to read), the stream ends, or it reports an
  error. A \<open>once\<close> listener is removed before it is called; a listener that is not
  registered is not called.
\<close>

datatype 'e event = EmitReadable "buffer list" | EmitEnd | EmitError 'e

fun emit :: "'e event \<Rightarrow> 'e state \<Rightarrow> 'e state" where
  "emit (EmitReadable chunks) st =
     (let st1 = st\<lparr>queue := queue st @ chunks\<rparr>
      in if on_readable st1 then read (st1\<lparr>on_readable := False\<rparr>) else st1)"
| "emit EmitEnd st = (if on_end st then onend st else st)"
| "emit (EmitError err) st = (if on_error st then onerror err st else st)"

definition run :: "buffer list \<Rightarrow> 'e event list \<Rightarrow> 'e state" where
  "run q evs = foldl (\<lambda>st ev. emit ev st) (parseProxyResponse q) evs"

fun arrived :: "'e event list \<Rightarrow> buffer list" where
  "arrived [] = []"
| "arrived (EmitReadable chunks # evs) = chunks @ arrived evs"
| "arrived (ev # evs) = arrived evs"

section \<open>What holds between two events\<close>

text \<open>
  The state the parser is in whenever control is back with the event loop, after the
  chunks \<open>arrival\<close> have reached the socket: every chunk read is in \<open>buffers\<close>; while
  the promise is pending all three listeners are registered, nothing is left to read
  and no terminator has been seen; once it is settled \<open>read\<close> is not registered any
  more; a resolution carries all the bytes read; and the socket is destroyed exactly
  when the rejection is one of the two the decoder creates.
\<close>

fun settled :: "'e promise \<Rightarrow> buffer \<Rightarrow> bool \<Rightarrow> bool" where
  "settled Pending bytes d = True"
| "settled (Resolved r) bytes d = (buffered r = bytes \<and> \<not> d)"
| "settled (Rejected (StreamError err)) bytes d = (\<not> d)"
| "settled (Rejected (Error m)) bytes d =
     (d = (m = ''No header received from proxy CONNECT response'' \<or>
           (\<exists>header. m = invalid_header_message header)))"

definition consistent :: "buffer list \<Rightarrow> 'e state \<Rightarrow> bool" where
  "consistent arrival st =
     (buffers st = delivered st \<and>
      buffersLength st = length (concat (buffers st)) \<and>
      delivered st @ queue st = arrival \<and>
      (if promise st = Pending
       then on_readable st \<and> on_end st \<and> on_error st \<and> queue st = [] \<and>
            \<not> destroyed st \<and> indexOf (concat (delivered st)) CRLFCRLF = -1
       else \<not> on_readable st) \<and>
      settled (promise st) (concat (delivered st)) (destroyed st))"

text \<open>The state in which \<open>read\<close> is entered: pending, with \<open>read\<close> not registered.\<close>

definition reading :: "'e state \<Rightarrow> bool" where
  "reading st =
     (promise st = Pending \<and> \<not> on_readable st \<and> on_end st \<and> on_error st \<and>
      \<not> destroyed st \<and> buffers st = delivered st \<and>
      buffersLength st = length (concat (buffers st)) \<and>
      indexOf (concat (delivered st)) CRLFCRLF = -1)"

section \<open>Notions the claims are stated with\<close>

text \<open>
  The numeric strings of the language, said as its grammar says them and without the
  conversion: a \<open>StringNumericLiteral\<close> is white space, then nothing or a
  \<open>StrNumericLiteral\<close>, then white space. A literal is a decimal one with an optional
  sign, or digits of base 16, 8 or 2 after the prefix of the base. An unsigned decimal
  literal is \<open>Infinity\<close>, or digits, a dot and perhaps more digits, or a dot and digits,
  or digits alone, each of the three with an optional exponent.
\<close>

definition is_hex_digit :: "char \<Rightarrow> bool" where
  "is_hex_digit c =
     (let n = (of_char c :: nat)
      in (48 \<le> n \<and> n \<le> 57) \<or> (97 \<le> n \<and> n \<le> 102) \<or> (65 \<le> n \<and> n \<le> 70))"

definition is_octal_digit :: "char \<Rightarrow> bool" where
  "is_octal_digit c = (let n = (of_char c :: nat) in 48 \<le> n \<and> n \<le> 55)"

definition is_binary_digit :: "char \<Rightarrow> bool" where
  "is_binary_digit c = (c = CHR ''0'' \<or> c = CHR ''1'')"

definition exponent_literal :: "string \<Rightarrow> bool" where
  "exponent_literal ex =
     (ex = [] \<or>
      (\<exists>i sg ds. (i = CHR ''e'' \<or> i = CHR ''E'') \<and> (sg = [] \<or> sg = ''+'' \<or> sg = ''-'') \<and>
         ds \<noteq> [] \<and> (\<forall>c \<in> set ds. is_digit c) \<and> ex = i # sg @ ds))"

definition digits_literal :: "string \<Rightarrow> bool" where
  "digits_literal u =
     (\<exists>ip fp ex. (\<forall>c \<in> set ip. is_digit c) \<and> (\<forall>c \<in> set fp. is_digit c) \<and>
        exponent_literal ex \<and>
        ((ip \<noteq> [] \<and> u = ip @ ''.'' @ fp @ ex) \<or>
         (fp \<noteq> [] \<and> u = ''.'' @ fp @ ex) \<or>
         (ip \<noteq> [] \<and> u = ip @ ex)))"

definition unsigned_decimal_literal :: "string \<Rightarrow> bool" where
  "unsigned_decimal_literal u = (u = ''Infinity'' \<or> digits_literal u)"

definition decimal_literal :: "string \<Rightarrow> bool" where
  "decimal_literal lit =
     (\<exists>sg u. (sg = [] \<or> sg = ''+'' \<or> sg = ''-'') \<and> unsigned_decimal_literal u \<and>
        lit = sg @ u)"

definition non_decimal_literal :: "string \<Rightarrow> bool" where
  "non_decimal_literal lit =
     (\<exists>p ds. ds \<noteq> [] \<and> lit = p @ ds \<and>
        (((p = ''0x'' \<or> p = ''0X'') \<and> (\<forall>c \<in> set ds. is_hex_digit c)) \<or>
         ((p = ''0o'' \<or> p = ''0O'') \<and> (\<forall>c \<in> set ds. is_octal_digit c)) \<or>
         ((p = ''0b'' \<or> p = ''0B'') \<and> (\<forall>c \<in> set ds. is_binary_digit c))))"

definition numeric_string :: "string \<Rightarrow> bool" where
  "numeric_string s =
     (\<exists>w1 lit w2. (\<forall>c \<in> set w1. is_space c) \<and> (\<forall>c \<in> set w2. is_space c) \<and>
        (lit = [] \<or> decimal_literal lit \<or> non_decimal_literal lit) \<and>
        s = w1 @ lit @ w2)"

text \<open>
  A header line as a response declares it: the name, a colon, the value.
\<close>

definition header_line :: "string \<times> string \<Rightarrow> string" where
  "header_line nv = fst nv @ '':'' @ snd nv"

text \<open>
  What a header name is expected to map to, said without the loop: the values declared
  under the name (names compared in lower case, values without their leading white
  space), in order; one value stands alone, several form a list.
\<close>

definition values_of :: "string \<Rightarrow> (string \<times> string) list \<Rightarrow> string list" where
  "values_of key hs =
     map (\<lambda>nv. trimStart (snd nv)) (filter (\<lambda>nv. toLowerCase (fst nv) = key) hs)"

fun collected :: "string list \<Rightarrow> header_value option" where
  "collected [] = None"
| "collected [v] = Some (Single v)"
| "collected vs = Some (Multi vs)"

text \<open>One more value for a name that maps to \<open>cur\<close> so far.\<close>

fun one_more :: "header_value option \<Rightarrow> string \<Rightarrow> header_value option" where
  "one_more None v = Some (Single v)"
| "one_more (Some (Single c)) v = Some (Multi [c, v])"
| "one_more (Some (Multi cs)) v = Some (Multi (cs @ [v]))"

text \<open>Text that \<open>toString('ascii')\<close> leaves as it is: every byte below 128.\<close>

definition seven_bit :: "string \<Rightarrow> bool" where
  "seven_bit s = (\<forall>c \<in> set s. (of_char c :: nat) < 128)"

text \<open>The number a string of decimal digits denotes.\<close>

definition decimal :: "string \<Rightarrow> nat" where
  "decimal s = foldl (\<lambda>n c. n * 10 + (of_char c - 48)) 0 s"

text \<open>
  A response as sent: the tokens of the status line joined by single spaces, then the
  header lines, each line ended by CR LF, and the empty line.
\<close>

definition response :: "string list \<Rightarrow> (string \<times> string) list \<Rightarrow> buffer" where
  "response tokens hs = js_join (js_join tokens '' '' # map header_line hs) CRLF @ CRLFCRLF"

text \<open>Bytes whose first terminator is their end: nothing follows the header block.\<close>

definition ends_with_first_terminator :: "buffer \<Rightarrow> bool" where
  "ends_with_first_terminator b =
     (indexOf b CRLFCRLF \<noteq> - 1 \<and> indexOf b CRLFCRLF + 4 = int (length b))"

section \<open>Facts about the primitives\<close>

declare read.simps [simp del] ondata.simps [simp del] bit_length.simps [simp del]

lemma indexOf_ge: "- 1 \<le> indexOf s pat"
  by (induction s) (auto simp: Let_def)

lemma indexOf_found: "indexOf s pat \<noteq> - 1 \<Longrightarrow> \<exists>u v. s = u @ pat @ v"
proof (induction s)
  case Nil
  then show ?case by (auto split: if_splits)
next
  case (Cons c cs)
  show ?case
  proof (cases "take (length pat) (c # cs) = pat")
    case True
    then have "c # cs = [] @ pat @ drop (length pat) (c # cs)"
      by (metis append_Nil append_take_drop_id)
    then show ?thesis by blast
  next
    case False
    with Cons.prems have "indexOf cs pat \<noteq> - 1"
      by (auto simp: Let_def split: if_splits)
    then obtain u v where "cs = u @ pat @ v" using Cons.IH by blast
    then have "c # cs = (c # u) @ pat @ v" by simp
    then show ?thesis by blast
  qed
qed

lemma indexOf_at_start: "take (length pat) s = pat \<Longrightarrow> indexOf s pat = 0"
  by (cases s) auto

lemma indexOf_occurs: "indexOf (u @ pat @ v) pat \<noteq> - 1"
proof (induction u)
  case Nil
  have "indexOf (pat @ v) pat = 0" by (rule indexOf_at_start) simp
  then show ?case by simp
next
  case (Cons a u)
  have "- 1 \<le> indexOf (u @ pat @ v) pat" by (rule indexOf_ge)
  with Cons show ?case by (auto simp: Let_def)
qed

lemma indexOf_absent_prefix:
  assumes "indexOf (xs @ ys) pat = - 1"
  shows "indexOf xs pat = - 1"
proof (rule ccontr)
  assume "indexOf xs pat \<noteq> - 1"
  then obtain u v where "xs = u @ pat @ v" using indexOf_found by blast
  then have "xs @ ys = u @ pat @ (v @ ys)" by simp
  then have "indexOf (xs @ ys) pat \<noteq> - 1" using indexOf_occurs by metis
  with assms show False by simp
qed

lemma Buffer_concat_exact: "Buffer_concat bs (length (concat bs)) = concat bs"
  by (simp add: Buffer_concat_def)

lemma invalid_header_message_neq:
  "invalid_header_message h \<noteq> ''Proxy connection ended before receiving CONNECT response''"
  "invalid_header_message h \<noteq> ''No header received from proxy CONNECT response''"
  by (simp_all add: invalid_header_message_def)

section \<open>The invariant of the event loop\<close>

lemma terminal_consistent:
  assumes "promise st = Pending" "\<not> on_readable st" "\<not> destroyed st"
    and "buffers st = delivered st" "buffersLength st = length (concat (buffers st))"
  shows "consistent (delivered st @ queue st)
           (reject (Error ''No header received from proxy CONNECT response'') (destroy st))"
    and "consistent (delivered st @ queue st)
           (reject (Error (invalid_header_message header)) (destroy st))"
    and "consistent (delivered st @ queue st)
           (resolve \<lparr>connect = c, buffered = concat (delivered st)\<rparr> (cleanup st))"
  using assms
  by (auto simp: consistent_def reject_def resolve_def destroy_def cleanup_def)

lemma decode_consistent:
  assumes "promise st = Pending" "\<not> on_readable st" "\<not> destroyed st"
    and "buffers st = delivered st" "buffersLength st = length (concat (buffers st))"
    and "queue st = q" "b = concat (delivered st)"
  shows "consistent (delivered st @ q) (decode b st)"
proof -
  note t = terminal_consistent [OF assms(1-5)]
  show ?thesis
    unfolding decode_def Let_def assms(6) [symmetric] assms(7)
    by (simp add: t split: list.split sum.split)
qed


lemma read_consistent:
  "reading st \<Longrightarrow> queue st = q \<Longrightarrow> consistent (delivered st @ q) (read st)"
proof (induction q arbitrary: st)
  case Nil
  then show ?case
    by (simp add: read.simps consistent_def reading_def)
next
  case (Cons b q)
  let ?st' = "st\<lparr>queue := q, delivered := delivered st @ [b]\<rparr>"
  let ?st1 = "?st'\<lparr>buffers := buffers ?st' @ [b], buffersLength := buffersLength ?st' + length b\<rparr>"
  have len: "buffersLength ?st1 = length (concat (buffers ?st1))"
    using Cons.prems by (simp add: reading_def)
  have bufs: "buffers ?st1 = delivered ?st1"
    using Cons.prems by (simp add: reading_def)
  have step: "read st = ondata b ?st'"
    using Cons.prems by (simp add: read.simps)
  have buffered: "Buffer_concat (buffers ?st1) (buffersLength ?st1) = concat (delivered ?st1)"
    using len bufs Buffer_concat_exact by metis
  show ?case
  proof (cases "indexOf (concat (delivered ?st1)) CRLFCRLF = - 1")
    case True
    then have "ondata b ?st' = read ?st1"
      using buffered by (simp add: ondata.simps Let_def)
    moreover have "reading ?st1"
      using Cons.prems True by (simp add: reading_def)
    moreover have "queue ?st1 = q" by simp
    ultimately have "consistent (delivered ?st1 @ q) (read st)"
      using Cons.IH step by metis
    then show ?thesis by simp
  next
    case False
    then have "ondata b ?st' = decode (concat (delivered ?st1)) ?st1"
      using buffered by (simp add: ondata.simps Let_def)
    moreover have "consistent (delivered ?st1 @ q) (decode (concat (delivered ?st1)) ?st1)"
      by (rule decode_consistent) (use Cons.prems in \<open>simp_all add: reading_def\<close>)
    ultimately show ?thesis using step by simp
  qed
qed

lemma read_pending:
  "reading st \<Longrightarrow> queue st = q \<Longrightarrow> indexOf (concat (delivered st @ q)) CRLFCRLF = - 1
     \<Longrightarrow> promise (read st) = Pending"
proof (induction q arbitrary: st)
  case Nil
  then show ?case
    by (simp add: read.simps reading_def)
next
  case (Cons b q)
  let ?st' = "st\<lparr>queue := q, delivered := delivered st @ [b]\<rparr>"
  let ?st1 = "?st'\<lparr>buffers := buffers ?st' @ [b], buffersLength := buffersLength ?st' + length b\<rparr>"
  have step: "read st = ondata b ?st'"
    using Cons.prems by (simp add: read.simps)
  have buffered: "Buffer_concat (buffers ?st1) (buffersLength ?st1) = concat (delivered ?st1)"
    using Cons.prems by (simp add: reading_def Buffer_concat_def)
  have "indexOf (concat (delivered st @ [b]) @ concat q) CRLFCRLF = - 1"
    using Cons.prems(3) by simp
  then have "indexOf (concat (delivered st @ [b])) CRLFCRLF = - 1"
    by (rule indexOf_absent_prefix)
  then have none: "indexOf (concat (delivered ?st1)) CRLFCRLF = - 1"
    by simp
  then have "ondata b ?st' = read ?st1"
    using buffered by (simp add: ondata.simps Let_def)
  moreover have "reading ?st1"
    using Cons.prems none by (simp add: reading_def)
  moreover have "indexOf (concat (delivered ?st1 @ q)) CRLFCRLF = - 1"
    using Cons.prems(3) by simp
  ultimately show ?case
    using Cons.IH [of ?st1] step by simp
qed

lemma emit_consistent:
  assumes "consistent arrival st"
  shows "consistent (arrival @ arrived [ev]) (emit ev st)"
proof (cases ev)
  case (EmitReadable chunks)
  let ?st1 = "st\<lparr>queue := queue st @ chunks\<rparr>"
  show ?thesis
  proof (cases "on_readable st")
    case True
    with assms have pending: "promise st = Pending"
      by (auto simp: consistent_def split: if_splits)
    have "reading (?st1\<lparr>on_readable := False\<rparr>)"
      using assms pending by (simp add: consistent_def reading_def)
    moreover have "queue (?st1\<lparr>on_readable := False\<rparr>) = chunks"
      using assms pending by (simp add: consistent_def)
    ultimately have "consistent (delivered (?st1\<lparr>on_readable := False\<rparr>) @ chunks)
                       (read (?st1\<lparr>on_readable := False\<rparr>))"
      by (rule read_consistent)
    moreover have "delivered st = arrival"
      using assms pending by (auto simp: consistent_def)
    ultimately show ?thesis
      using True EmitReadable by (simp add: Let_def)
  next
    case False
    with assms have "promise st \<noteq> Pending"
      by (auto simp: consistent_def)
    with assms False show ?thesis
      using EmitReadable by (simp add: consistent_def Let_def)
  qed
next
  case EmitEnd
  show ?thesis
  proof (cases "promise st = Pending")
    case True
    with assms show ?thesis
      using EmitEnd
      by (auto simp: consistent_def onend_def reject_def cleanup_def invalid_header_message_neq [symmetric])
  next
    case False
    with assms show ?thesis
      using EmitEnd
      by (auto simp: consistent_def onend_def reject_def cleanup_def)
  qed
next
  case (EmitError err)
  show ?thesis
  proof (cases "promise st = Pending")
    case True
    with assms show ?thesis
      using EmitError
      by (auto simp: consistent_def onerror_def reject_def cleanup_def)
  next
    case False
    with assms show ?thesis
      using EmitError
      by (auto simp: consistent_def onerror_def reject_def cleanup_def)
  qed
qed

lemma arrived_append: "arrived (evs @ evs') = arrived evs @ arrived evs'"
  by (induction evs rule: arrived.induct) simp_all

lemma parseProxyResponse_consistent: "consistent q (parseProxyResponse q)"
proof -
  let ?st0 = "\<lparr>buffers = [], buffersLength = 0, queue = q, delivered = [],
           on_readable = False, on_end = True, on_error = True, destroyed = False,
           promise = Pending\<rparr> :: 'a state"
  have "reading ?st0" by (simp add: reading_def CRLFCRLF_def)
  moreover have "queue ?st0 = q" by simp
  ultimately have "consistent (delivered ?st0 @ q) (read ?st0)"
    by (rule read_consistent)
  then show ?thesis by (simp add: parseProxyResponse_def)
qed

lemma run_snoc: "run q (evs @ [ev]) = emit ev (run q evs)"
  by (simp add: run_def)

lemma run_consistent: "consistent (q @ arrived evs) (run q evs)"
proof (induction evs rule: rev_induct)
  case Nil
  show ?case using parseProxyResponse_consistent [of q] by (simp add: run_def)
next
  case (snoc ev evs)
  have "consistent ((q @ arrived evs) @ arrived [ev]) (emit ev (run q evs))"
    using snoc by (rule emit_consistent)
  then show ?case by (simp add: run_snoc arrived_append)
qed

lemma arrived_readable: "arrived (map EmitReadable css) = concat css"
  by (induction css) simp_all

lemma parseProxyResponse_pending:
  assumes "indexOf (concat q) CRLFCRLF = - 1"
  shows "promise (parseProxyResponse q) = Pending"
proof -
  let ?st0 = "\<lparr>buffers = [], buffersLength = 0, queue = q, delivered = [],
           on_readable = False, on_end = True, on_error = True, destroyed = False,
           promise = Pending\<rparr> :: 'a state"
  have "reading ?st0" by (simp add: reading_def CRLFCRLF_def)
  moreover have "queue ?st0 = q" by simp
  moreover have "indexOf (concat (delivered ?st0 @ q)) CRLFCRLF = - 1"
    using assms by simp
  ultimately have "promise (read ?st0) = Pending"
    by (rule read_pending)
  then show ?thesis by (simp add: parseProxyResponse_def)
qed

lemma run_readable_pending:
  "indexOf (concat (q @ concat css)) CRLFCRLF = - 1
     \<Longrightarrow> promise (run q (map EmitReadable css) :: 'e state) = Pending"
proof (induction css rule: rev_induct)
  case Nil
  then show ?case by (simp add: run_def parseProxyResponse_pending)
next
  case (snoc cs css)
  let ?st = "run q (map EmitReadable css) :: 'e state"
  let ?st1 = "?st\<lparr>queue := queue ?st @ cs, on_readable := False\<rparr>"
  have all: "indexOf (concat (q @ concat css) @ concat cs) CRLFCRLF = - 1"
    using snoc.prems by simp
  then have "indexOf (concat (q @ concat css)) CRLFCRLF = - 1"
    by (rule indexOf_absent_prefix)
  then have pending: "promise ?st = Pending" by (rule snoc.IH)
  have cons: "consistent (q @ concat css) ?st"
    using run_consistent [of q "map EmitReadable css"] by (simp add: arrived_readable)
  have "reading ?st1"
    using cons pending by (simp add: consistent_def reading_def)
  moreover have "queue ?st1 = cs"
    using cons pending by (simp add: consistent_def)
  moreover have "delivered ?st1 = q @ concat css"
    using cons pending by (auto simp: consistent_def)
  then have "indexOf (concat (delivered ?st1 @ cs)) CRLFCRLF = - 1"
    using all by simp
  ultimately have "promise (read ?st1) = Pending"
    by (rule read_pending)
  moreover have "on_readable ?st"
    using cons pending by (simp add: consistent_def)
  ultimately show ?case
    by (simp add: run_snoc Let_def)
qed

section \<open>The numeric strings are the strings that coerce to a number\<close>

lemma number_for_not_NaN: "number_for neg q \<noteq> NaN"
  by (simp add: number_for_def zero_def Let_def)

lemma digits_value_None:
  "(digits_value base s acc = None) = (\<exists>c \<in> set s. digit_value base c = None)"
  by (induction s arbitrary: acc) (auto split: option.splits)

lemma integer_literal_None:
  "(integer_literal base s = None) = (s = [] \<or> (\<exists>c \<in> set s. digit_value base c = None))"
  by (simp add: integer_literal_def digits_value_None)

lemma digit_value_10: "(digit_value 10 c = None) = (\<not> is_digit c)"
  by (auto simp: digit_value_def is_digit_def Let_def split: if_splits)

lemma digit_value_16: "(digit_value 16 c = None) = (\<not> is_hex_digit c)"
  by (auto simp: digit_value_def is_hex_digit_def Let_def split: if_splits)

lemma digit_value_8: "(digit_value 8 c = None) = (\<not> is_octal_digit c)"
  by (auto simp: digit_value_def is_octal_digit_def Let_def split: if_splits)

lemma of_char_inj: "(of_char c :: nat) = of_char d \<Longrightarrow> c = d"
  by simp

lemma digit_value_2: "(digit_value 2 c = None) = (\<not> is_binary_digit c)"
proof -
  have 0: "(of_char c :: nat) = 48 \<Longrightarrow> c = CHR ''0''"
    using of_char_inj [of c "CHR ''0''"] by simp
  have 1: "(of_char c :: nat) = 49 \<Longrightarrow> c = CHR ''1''"
    using of_char_inj [of c "CHR ''1''"] by simp
  have "digit_value 2 c \<noteq> None \<Longrightarrow> (of_char c :: nat) = 48 \<or> (of_char c :: nat) = 49"
    by (auto simp: digit_value_def Let_def split: if_splits)
  with 0 1 have "digit_value 2 c \<noteq> None \<Longrightarrow> is_binary_digit c"
    unfolding is_binary_digit_def by blast
  moreover have "is_binary_digit c \<Longrightarrow> digit_value 2 c \<noteq> None"
    by (auto simp: is_binary_digit_def digit_value_def)
  ultimately show ?thesis by blast
qed

lemma integer_literal_10: "(integer_literal 10 s = None) = (s = [] \<or> (\<exists>c \<in> set s. \<not> is_digit c))"
  by (simp add: integer_literal_None digit_value_10)

lemma digit_not_sign: "is_digit c \<Longrightarrow> c \<noteq> CHR ''+'' \<and> c \<noteq> CHR ''-'' \<and> c \<noteq> CHR ''.''"
  by (auto simp: is_digit_def)

lemma exponent_part_literal:
  assumes "exponent_literal ex"
  shows "exponent_part ex \<noteq> None"
proof (cases "ex = []")
  case True
  then show ?thesis by (simp add: exponent_part_def)
next
  case False
  with assms obtain i sg ds where i: "i = CHR ''e'' \<or> i = CHR ''E''"
    and sg: "sg = [] \<or> sg = ''+'' \<or> sg = ''-''"
    and ds: "ds \<noteq> []" "\<forall>c \<in> set ds. is_digit c" and ex: "ex = i # sg @ ds"
    unfolding exponent_literal_def by blast
  have lit: "integer_literal 10 ds \<noteq> None"
    using ds by (simp add: integer_literal_10)
  from sg show ?thesis
  proof (elim disjE)
    assume "sg = []"
    obtain d ds' where d: "ds = d # ds'" using ds(1) by (cases ds) auto
    then have "d \<noteq> CHR ''+''" "d \<noteq> CHR ''-''"
      using ds(2) digit_not_sign [of d] by simp_all
    then show ?thesis
      using i lit \<open>sg = []\<close> unfolding ex d
      by (auto simp: exponent_part_def)
  next
    assume "sg = ''+''"
    then show ?thesis
      using i lit unfolding ex by (auto simp: exponent_part_def)
  next
    assume "sg = ''-''"
    then show ?thesis
      using i lit unfolding ex by (auto simp: exponent_part_def)
  qed
qed

lemma exponent_literal_part:
  assumes "exponent_part ex \<noteq> None"
  shows "exponent_literal ex"
proof (cases ex)
  case Nil
  then show ?thesis by (simp add: exponent_literal_def)
next
  case (Cons i r)
  with assms have i: "i = CHR ''e'' \<or> i = CHR ''E''"
    by (auto simp: exponent_part_def split: if_splits)
  show ?thesis
  proof (cases r)
    case Nil
    with assms Cons i show ?thesis by (auto simp: exponent_part_def)
  next
    case (Cons d r')
    consider (plus) "d = CHR ''+''" | (minus) "d = CHR ''-''"
      | (none) "d \<noteq> CHR ''+''" "d \<noteq> CHR ''-''"
      by blast
    then show ?thesis
    proof cases
      case plus
      with assms \<open>ex = i # r\<close> Cons i have "integer_literal 10 r' \<noteq> None"
        by (auto simp: exponent_part_def)
      then have "r' \<noteq> []" "\<forall>c \<in> set r'. is_digit c"
        by (auto simp: integer_literal_10)
      moreover have "ex = i # ''+'' @ r'"
        using \<open>ex = i # r\<close> Cons plus by simp
      ultimately show ?thesis
        unfolding exponent_literal_def using i by blast
    next
      case minus
      with assms \<open>ex = i # r\<close> Cons i have "integer_literal 10 r' \<noteq> None"
        by (auto simp: exponent_part_def)
      then have "r' \<noteq> []" "\<forall>c \<in> set r'. is_digit c"
        by (auto simp: integer_literal_10)
      moreover have "ex = i # ''-'' @ r'"
        using \<open>ex = i # r\<close> Cons minus by simp
      ultimately show ?thesis
        unfolding exponent_literal_def using i by blast
    next
      case none
      with assms \<open>ex = i # r\<close> Cons i have "integer_literal 10 r \<noteq> None"
        by (auto simp: exponent_part_def)
      then have "r \<noteq> []" "\<forall>c \<in> set r. is_digit c"
        by (auto simp: integer_literal_10)
      moreover have "ex = i # [] @ r"
        using \<open>ex = i # r\<close> by simp
      ultimately show ?thesis
        unfolding exponent_literal_def using i by blast
    qed
  qed
qed

lemma split_at_digits:
  assumes "\<forall>c \<in> set ip. is_digit c" and "rest = [] \<or> \<not> is_digit (hd rest)"
  shows "takeWhile is_digit (ip @ rest) = ip" and "dropWhile is_digit (ip @ rest) = rest"
proof -
  have "takeWhile is_digit rest = []" "dropWhile is_digit rest = rest"
    using assms(2) by (cases rest; simp)+
  then show "takeWhile is_digit (ip @ rest) = ip" "dropWhile is_digit (ip @ rest) = rest"
    using assms(1) by simp_all
qed

lemma exponent_literal_start:
  assumes "exponent_literal ex"
  shows "ex = [] \<or> (\<not> is_digit (hd ex) \<and> hd ex \<noteq> CHR ''.'')"
proof (cases "ex = []")
  case True
  then show ?thesis by simp
next
  case False
  with assms obtain i r where "i = CHR ''e'' \<or> i = CHR ''E''" "ex = i # r"
    unfolding exponent_literal_def by blast
  then show ?thesis by (auto simp: is_digit_def)
qed

lemma unsigned_decimal_pieces:
  assumes "digits_value 10 (ip @ fp) 0 = Some m" and "exponent_part r2 = Some e"
    and "ip \<noteq> [] \<or> fp \<noteq> []"
    and "takeWhile is_digit u = ip"
    and "(case dropWhile is_digit u of [] \<Rightarrow> []
          | c # r \<Rightarrow> if c = CHR ''.'' then takeWhile is_digit r else []) = fp"
    and "(case dropWhile is_digit u of [] \<Rightarrow> []
          | c # r \<Rightarrow> if c = CHR ''.'' then dropWhile is_digit r else dropWhile is_digit u) = r2"
  shows "unsigned_decimal u \<noteq> None"
  unfolding unsigned_decimal_def Let_def assms(4,5,6)
  using assms(1,2,3) by auto

lemma digits_value_digits:
  "\<forall>c \<in> set ds. is_digit c \<Longrightarrow> \<exists>m. digits_value 10 ds 0 = Some m"
  using digits_value_None [of 10 ds 0] by (auto simp: digit_value_10)

lemma unsigned_decimal_literal_parses:
  assumes "digits_literal u"
  shows "unsigned_decimal u \<noteq> None"
proof -
  from assms obtain ip fp ex where ip: "\<forall>c \<in> set ip. is_digit c"
    and fp: "\<forall>c \<in> set fp. is_digit c" and ex: "exponent_literal ex"
    and u: "(ip \<noteq> [] \<and> u = ip @ ''.'' @ fp @ ex) \<or> (fp \<noteq> [] \<and> u = ''.'' @ fp @ ex) \<or>
            (ip \<noteq> [] \<and> u = ip @ ex)"
    unfolding digits_literal_def by blast
  obtain e where e: "exponent_part ex = Some e"
    using exponent_part_literal [OF ex] by auto
  have start: "ex = [] \<or> (\<not> is_digit (hd ex) \<and> hd ex \<noteq> CHR ''.'')"
    using ex by (rule exponent_literal_start)
  then have start': "ex = [] \<or> \<not> is_digit (hd ex)" by blast
  have dotted: "unsigned_decimal (ip' @ ''.'' @ fp @ ex) \<noteq> None"
    if ip': "\<forall>c \<in> set ip'. is_digit c" and ne: "ip' \<noteq> [] \<or> fp \<noteq> []" for ip'
  proof -
    obtain m where m: "digits_value 10 (ip' @ fp) 0 = Some m"
      using digits_value_digits [of "ip' @ fp"] ip' fp by auto
    have not: "''.'' @ fp @ ex = [] \<or> \<not> is_digit (hd (''.'' @ fp @ ex))"
      by (simp add: is_digit_def)
    have tw: "takeWhile is_digit (ip' @ ''.'' @ fp @ ex) = ip'"
      and dw: "dropWhile is_digit (ip' @ ''.'' @ fp @ ex) = ''.'' @ fp @ ex"
      using split_at_digits [OF ip' not] by simp_all
    have f1: "(case dropWhile is_digit (ip' @ ''.'' @ fp @ ex) of [] \<Rightarrow> []
          | c # r \<Rightarrow> if c = CHR ''.'' then takeWhile is_digit r else []) = fp"
      unfolding dw using split_at_digits(1) [OF fp start'] by simp
    have f2: "(case dropWhile is_digit (ip' @ ''.'' @ fp @ ex) of [] \<Rightarrow> []
          | c # r \<Rightarrow> if c = CHR ''.'' then dropWhile is_digit r
                   else dropWhile is_digit (ip' @ ''.'' @ fp @ ex)) = ex"
      unfolding dw using split_at_digits(2) [OF fp start'] by simp
    show ?thesis
      using m e ne tw f1 f2 by (rule unsigned_decimal_pieces)
  qed
  from u show ?thesis
  proof (elim disjE conjE)
    assume "ip \<noteq> []" "u = ip @ ''.'' @ fp @ ex"
    then show ?thesis using dotted [OF ip] by simp
  next
    assume "fp \<noteq> []" "u = ''.'' @ fp @ ex"
    then show ?thesis using dotted [of "[]"] by simp
  next
    assume ne: "ip \<noteq> []" and u': "u = ip @ ex"
    obtain m where m: "digits_value 10 (ip @ []) 0 = Some m"
      using digits_value_digits [of ip] ip by auto
    have tw: "takeWhile is_digit (ip @ ex) = ip"
      and dw: "dropWhile is_digit (ip @ ex) = ex"
      using split_at_digits [OF ip start'] by simp_all
    have f1: "(case dropWhile is_digit (ip @ ex) of [] \<Rightarrow> []
          | c # r \<Rightarrow> if c = CHR ''.'' then takeWhile is_digit r else []) = []"
      unfolding dw using start by (cases ex) auto
    have f2: "(case dropWhile is_digit (ip @ ex) of [] \<Rightarrow> []
          | c # r \<Rightarrow> if c = CHR ''.'' then dropWhile is_digit r
                   else dropWhile is_digit (ip @ ex)) = ex"
      unfolding dw using start by (cases ex) auto
    have "ip \<noteq> [] \<or> ([] :: string) \<noteq> []" using ne by simp
    with m e have "unsigned_decimal (ip @ ex) \<noteq> None"
      using tw f1 f2 by (rule unsigned_decimal_pieces)
    then show ?thesis using u' by simp
  qed
qed

lemma unsigned_decimal_parsed_literal:
  assumes "unsigned_decimal u \<noteq> None"
  shows "digits_literal u"
proof -
  define ip where "ip = takeWhile is_digit u"
  define r1 where "r1 = dropWhile is_digit u"
  have u: "u = ip @ r1" by (simp add: ip_def r1_def)
  have ip: "\<forall>c \<in> set ip. is_digit c"
    unfolding ip_def by (auto dest: set_takeWhileD)
  show ?thesis
  proof (cases r1)
    case Nil
    with assms have "ip \<noteq> []"
      unfolding unsigned_decimal_def Let_def ip_def [symmetric] r1_def [symmetric]
      by (auto split: if_splits)
    moreover have "exponent_literal []" by (simp add: exponent_literal_def)
    moreover have "u = ip @ []" using u Nil by simp
    ultimately show ?thesis
      unfolding digits_literal_def using ip by blast
  next
    case (Cons c r)
    show ?thesis
    proof (cases "c = CHR ''.''")
      case True
      define fp where "fp = takeWhile is_digit r"
      define r2 where "r2 = dropWhile is_digit r"
      have r: "r = fp @ r2" by (simp add: fp_def r2_def)
      have fp: "\<forall>c \<in> set fp. is_digit c"
        unfolding fp_def by (auto dest: set_takeWhileD)
      from assms have ne: "ip \<noteq> [] \<or> fp \<noteq> []" and "exponent_part r2 \<noteq> None"
        unfolding unsigned_decimal_def Let_def ip_def [symmetric] r1_def [symmetric]
        using Cons True
        by (auto simp: fp_def r2_def split: if_splits option.splits)
      then have ex: "exponent_literal r2" using exponent_literal_part by blast
      have form: "u = ip @ ''.'' @ fp @ r2" using u Cons True r by simp
      show ?thesis
      proof (cases "ip = []")
        case True
        with ne form have "fp \<noteq> []" "u = ''.'' @ fp @ r2" by simp_all
        then show ?thesis
          unfolding digits_literal_def using ip fp ex by blast
      next
        case False
        then show ?thesis
          unfolding digits_literal_def using ip fp ex form by blast
      qed
    next
      case False
      from assms have "ip \<noteq> []" and "exponent_part r1 \<noteq> None"
        unfolding unsigned_decimal_def Let_def ip_def [symmetric] r1_def [symmetric]
        using Cons False
        by (auto split: if_splits option.splits)
      then have "exponent_literal r1" using exponent_literal_part by blast
      moreover have "\<forall>c \<in> set ([] :: string). is_digit c" by simp
      ultimately show ?thesis
        unfolding digits_literal_def using ip u \<open>ip \<noteq> []\<close> by blast
    qed
  qed
qed

lemma digits_literal_head:
  assumes "digits_literal u"
  shows "u \<noteq> [] \<and> (is_digit (hd u) \<or> hd u = CHR ''.'')"
proof -
  from assms obtain ip fp ex where ip: "\<forall>c \<in> set ip. is_digit c"
    and u: "(ip \<noteq> [] \<and> u = ip @ ''.'' @ fp @ ex) \<or> (fp \<noteq> [] \<and> u = ''.'' @ fp @ ex) \<or>
            (ip \<noteq> [] \<and> u = ip @ ex)"
    unfolding digits_literal_def by blast
  have "ip \<noteq> [] \<Longrightarrow> is_digit (hd ip)" using ip by simp
  with u show ?thesis by auto
qed

lemma unsigned_decimal_literal_head:
  assumes "unsigned_decimal_literal u"
  shows "u \<noteq> []" and "hd u \<noteq> CHR ''+''" and "hd u \<noteq> CHR ''-''" and "\<not> is_space (hd u)"
proof -
  have "u \<noteq> [] \<and> (is_digit (hd u) \<or> hd u = CHR ''.'' \<or> hd u = CHR ''I'')"
    using assms digits_literal_head [of u] unfolding unsigned_decimal_literal_def by auto
  then show "u \<noteq> []" "hd u \<noteq> CHR ''+''" "hd u \<noteq> CHR ''-''" "\<not> is_space (hd u)"
    by (auto simp: is_digit_def is_space_def)
qed

lemma str_decimal_of:
  assumes "(if s \<noteq> [] \<and> (hd s = CHR ''+'' \<or> hd s = CHR ''-'') then tl s else s) = u"
    and "unsigned_decimal_literal u"
  shows "str_decimal s \<noteq> NaN"
proof (cases "u = ''Infinity''")
  case True
  show ?thesis
    unfolding str_decimal_def Let_def assms(1) using True by simp
next
  case False
  with assms(2) have "digits_literal u" by (simp add: unsigned_decimal_literal_def)
  then have "unsigned_decimal u \<noteq> None" by (rule unsigned_decimal_literal_parses)
  then obtain q where q: "unsigned_decimal u = Some q" by auto
  show ?thesis
    unfolding str_decimal_def Let_def assms(1) using False q
    by (simp add: number_for_not_NaN)
qed

lemma str_decimal_literal:
  assumes "decimal_literal s"
  shows "str_decimal s \<noteq> NaN"
proof -
  from assms obtain sg u where sg: "sg = [] \<or> sg = ''+'' \<or> sg = ''-''"
    and u: "unsigned_decimal_literal u" and s: "s = sg @ u"
    unfolding decimal_literal_def by blast
  note h = unsigned_decimal_literal_head [OF u]
  have "(if s \<noteq> [] \<and> (hd s = CHR ''+'' \<or> hd s = CHR ''-'') then tl s else s) = u"
    using sg s h by auto
  then show ?thesis using u by (rule str_decimal_of)
qed

lemma literal_str_decimal:
  assumes "str_decimal s \<noteq> NaN"
  shows "decimal_literal s"
proof -
  define u where "u = (if s \<noteq> [] \<and> (hd s = CHR ''+'' \<or> hd s = CHR ''-'') then tl s else s)"
  have "u = ''Infinity'' \<or> unsigned_decimal u \<noteq> None"
    using assms unfolding str_decimal_def Let_def u_def [symmetric]
    by (auto split: if_splits option.splits)
  then have lit: "unsigned_decimal_literal u"
    unfolding unsigned_decimal_literal_def using unsigned_decimal_parsed_literal by blast
  have "s = [] @ u \<or> s = ''+'' @ u \<or> s = ''-'' @ u"
    unfolding u_def by (cases s) auto
  then show ?thesis
    unfolding decimal_literal_def using lit by blast
qed

lemma trim_decompose:
  "\<exists>w1 w2. (\<forall>c \<in> set w1. is_space c) \<and> (\<forall>c \<in> set w2. is_space c) \<and>
     str = w1 @ trim str @ w2"
proof -
  define w1 where "w1 = takeWhile is_space str"
  define t where "t = dropWhile is_space str"
  define w2 where "w2 = rev (takeWhile is_space (rev t))"
  have 1: "str = w1 @ t" by (simp add: w1_def t_def)
  have "rev (takeWhile is_space (rev t) @ dropWhile is_space (rev t)) = t"
    by (simp only: takeWhile_dropWhile_id rev_rev_ident)
  then have "rev (dropWhile is_space (rev t)) @ rev (takeWhile is_space (rev t)) = t"
    by (simp only: rev_append)
  then have 2: "t = trim str @ w2"
    unfolding trim_def t_def [symmetric] w2_def by (rule sym)
  have "\<forall>c \<in> set w1. is_space c"
    unfolding w1_def by (auto dest: set_takeWhileD)
  moreover have "\<forall>c \<in> set w2. is_space c"
    unfolding w2_def by (auto dest: set_takeWhileD)
  moreover have "str = w1 @ trim str @ w2" using 1 2 by simp
  ultimately show ?thesis by blast
qed

lemma trim_spaces:
  assumes "\<forall>c \<in> set w. is_space c"
  shows "trim w = []"
proof -
  have "dropWhile is_space w = []"
    using assms dropWhile_eq_Nil_conv [of is_space w] by blast
  then have "rev (dropWhile is_space (rev (dropWhile is_space w))) = rev (dropWhile is_space (rev []))"
    by (rule arg_cong)
  then show ?thesis unfolding trim_def by simp
qed

lemma trim_around:
  assumes "\<forall>c \<in> set w1. is_space c" and "\<forall>c \<in> set w2. is_space c"
    and "lit \<noteq> []" and "\<not> is_space (hd lit)" and "\<not> is_space (last lit)"
  shows "trim (w1 @ lit @ w2) = lit"
proof -
  have "dropWhile is_space (lit @ w2) = lit @ w2"
    using assms(3,4) by (cases lit) simp_all
  then have 1: "dropWhile is_space (w1 @ lit @ w2) = lit @ w2"
    using assms(1) by simp
  have "dropWhile is_space (rev w2 @ rev lit) = dropWhile is_space (rev lit)"
    by (rule dropWhile_append2) (use assms(2) in simp)
  also have "\<dots> = rev lit"
    using assms(3,5) by (simp add: dropWhile_eq_self_iff hd_rev)
  finally have 2: "dropWhile is_space (rev w2 @ rev lit) = rev lit" .
  show ?thesis
    unfolding trim_def 1 by (simp add: 2)
qed

lemma exponent_literal_last:
  assumes "exponent_literal ex" and "ex \<noteq> []"
  shows "is_digit (last ex)"
proof -
  from assms obtain i sg ds where "ds \<noteq> []" "\<forall>c \<in> set ds. is_digit c" "ex = i # sg @ ds"
    unfolding exponent_literal_def by blast
  then show ?thesis by simp
qed

lemma digits_last: "\<forall>c \<in> set ds. is_digit c \<Longrightarrow> ds \<noteq> [] \<Longrightarrow> is_digit (last ds)"
  by simp

lemma digits_literal_last:
  assumes "digits_literal u"
  shows "is_digit (last u) \<or> last u = CHR ''.''"
proof -
  from assms obtain ip fp ex where ip: "\<forall>c \<in> set ip. is_digit c"
    and fp: "\<forall>c \<in> set fp. is_digit c" and ex: "exponent_literal ex"
    and u: "(ip \<noteq> [] \<and> u = ip @ ''.'' @ fp @ ex) \<or> (fp \<noteq> [] \<and> u = ''.'' @ fp @ ex) \<or>
            (ip \<noteq> [] \<and> u = ip @ ex)"
    unfolding digits_literal_def by blast
  have tail: "is_digit (last (''.'' @ fp @ ex)) \<or> last (''.'' @ fp @ ex) = CHR ''.''"
  proof (cases "ex = []")
    case True
    then show ?thesis using digits_last [OF fp] by (cases "fp = []") simp_all
  next
    case False
    then show ?thesis using exponent_literal_last [OF ex] by simp
  qed
  have plain: "ip \<noteq> [] \<Longrightarrow> is_digit (last (ip @ ex))"
    using exponent_literal_last [OF ex] digits_last [OF ip] by (cases "ex = []") simp_all
  from u show ?thesis
  proof (elim disjE conjE)
    assume "u = ip @ ''.'' @ fp @ ex"
    then have "last u = last (''.'' @ fp @ ex)" by simp
    with tail show ?thesis by simp
  next
    assume "u = ''.'' @ fp @ ex"
    with tail show ?thesis by simp
  next
    assume "ip \<noteq> []" "u = ip @ ex"
    with plain show ?thesis by simp
  qed
qed

lemma decimal_literal_ends:
  assumes "decimal_literal lit"
  shows "lit \<noteq> []" and "\<not> is_space (hd lit)" and "\<not> is_space (last lit)"
proof -
  from assms obtain sg u where sg: "sg = [] \<or> sg = ''+'' \<or> sg = ''-''"
    and u: "unsigned_decimal_literal u" and lit: "lit = sg @ u"
    unfolding decimal_literal_def by blast
  note h = unsigned_decimal_literal_head [OF u]
  show "lit \<noteq> []" using lit h(1) by simp
  show "\<not> is_space (hd lit)"
    using sg lit h by (auto simp: is_space_def)
  have "last lit = last u" using lit h(1) by simp
  moreover have "\<not> is_space (last u)"
  proof (cases "u = ''Infinity''")
    case True
    then show ?thesis by (simp add: is_space_def)
  next
    case False
    with u have "digits_literal u" by (simp add: unsigned_decimal_literal_def)
    then have "is_digit (last u) \<or> last u = CHR ''.''" by (rule digits_literal_last)
    then show ?thesis by (auto simp: is_digit_def is_space_def)
  qed
  ultimately show "\<not> is_space (last lit)" by simp
qed


lemma hex_digit_not_space: "is_hex_digit c \<Longrightarrow> \<not> is_space c"
  by (auto simp: is_hex_digit_def is_space_def Let_def)

lemma octal_digit_not_space: "is_octal_digit c \<Longrightarrow> \<not> is_space c"
  by (auto simp: is_octal_digit_def is_space_def Let_def)

lemma binary_digit_not_space: "is_binary_digit c \<Longrightarrow> \<not> is_space c"
  by (auto simp: is_binary_digit_def is_space_def)

lemma non_decimal_literal_iff:
  "non_decimal_literal s =
     (drop 2 s \<noteq> [] \<and>
      (((take 2 s = ''0x'' \<or> take 2 s = ''0X'') \<and> (\<forall>c \<in> set (drop 2 s). is_hex_digit c)) \<or>
       ((take 2 s = ''0o'' \<or> take 2 s = ''0O'') \<and> (\<forall>c \<in> set (drop 2 s). is_octal_digit c)) \<or>
       ((take 2 s = ''0b'' \<or> take 2 s = ''0B'') \<and> (\<forall>c \<in> set (drop 2 s). is_binary_digit c))))"
  (is "?l = ?r")
proof
  assume ?l
  then obtain p ds where ds: "ds \<noteq> []" and s: "s = p @ ds"
    and c: "((p = ''0x'' \<or> p = ''0X'') \<and> (\<forall>c \<in> set ds. is_hex_digit c)) \<or>
            ((p = ''0o'' \<or> p = ''0O'') \<and> (\<forall>c \<in> set ds. is_octal_digit c)) \<or>
            ((p = ''0b'' \<or> p = ''0B'') \<and> (\<forall>c \<in> set ds. is_binary_digit c))"
    unfolding non_decimal_literal_def by blast
  from c have "length p = 2" by auto
  then have "take 2 s = p" "drop 2 s = ds" unfolding s by simp_all
  with ds c show ?r by simp
next
  assume r: ?r
  have "s = take 2 s @ drop 2 s" by simp
  with r show ?l unfolding non_decimal_literal_def by blast
qed

lemma non_decimal_literal_ends:
  assumes "non_decimal_literal lit"
  shows "lit \<noteq> []" and "\<not> is_space (hd lit)" and "\<not> is_space (last lit)"
proof -
  from assms obtain p ds where ds: "ds \<noteq> []" and s: "lit = p @ ds"
    and c: "((p = ''0x'' \<or> p = ''0X'') \<and> (\<forall>c \<in> set ds. is_hex_digit c)) \<or>
            ((p = ''0o'' \<or> p = ''0O'') \<and> (\<forall>c \<in> set ds. is_octal_digit c)) \<or>
            ((p = ''0b'' \<or> p = ''0B'') \<and> (\<forall>c \<in> set ds. is_binary_digit c))"
    unfolding non_decimal_literal_def by blast
  from c have "hd lit = CHR ''0''" unfolding s by auto
  then show "\<not> is_space (hd lit)" by (simp add: is_space_def)
  from ds show "lit \<noteq> []" unfolding s by simp
  from ds have "last lit = last ds" "last ds \<in> set ds" unfolding s by simp_all
  with c show "\<not> is_space (last lit)"
    using hex_digit_not_space octal_digit_not_space binary_digit_not_space by metis
qed

lemma str_decimal_prefixed:
  assumes "x \<in> {CHR ''x'', CHR ''X'', CHR ''o'', CHR ''O'', CHR ''b'', CHR ''B''}"
  shows "str_decimal (CHR ''0'' # x # rest) = NaN"
proof -
  have x: "\<not> is_digit x" "x \<noteq> CHR ''.''" "x \<noteq> CHR ''e''" "x \<noteq> CHR ''E''"
    using assms by (auto simp: is_digit_def)
  have d: "is_digit CHR ''0''" by (simp add: is_digit_def)
  have "exponent_part (x # rest) = None"
    using x by (simp add: exponent_part_def)
  then have "unsigned_decimal (CHR ''0'' # x # rest) = None"
    using x d by (simp add: unsigned_decimal_def Let_def split: option.splits)
  then show ?thesis
    by (simp add: str_decimal_def Let_def)
qed

lemma decimal_literal_not_prefixed:
  assumes "decimal_literal s"
  shows "take 2 s \<noteq> ''0x''" and "take 2 s \<noteq> ''0X''" and "take 2 s \<noteq> ''0o''"
    and "take 2 s \<noteq> ''0O''" and "take 2 s \<noteq> ''0b''" and "take 2 s \<noteq> ''0B''"
proof -
  have "take 2 s \<notin> {''0x'', ''0X'', ''0o'', ''0O'', ''0b'', ''0B''}"
  proof
    assume a: "take 2 s \<in> {''0x'', ''0X'', ''0o'', ''0O'', ''0b'', ''0B''}"
    then obtain x where x: "x \<in> {CHR ''x'', CHR ''X'', CHR ''o'', CHR ''O'', CHR ''b'', CHR ''B''}"
      and t: "take 2 s = [CHR ''0'', x]"
      by auto
    have "s = take 2 s @ drop 2 s" by simp
    then have "s = CHR ''0'' # x # drop 2 s" unfolding t by simp
    then have "str_decimal s = NaN"
      using str_decimal_prefixed [OF x, of "drop 2 s"] by simp
    with str_decimal_literal [OF assms] show False by simp
  qed
  then show "take 2 s \<noteq> ''0x''" and "take 2 s \<noteq> ''0X''" and "take 2 s \<noteq> ''0o''"
    and "take 2 s \<noteq> ''0O''" and "take 2 s \<noteq> ''0b''" and "take 2 s \<noteq> ''0B''"
    by simp_all
qed

lemma numeric_string_trim:
  "numeric_string str =
     (trim str = [] \<or> decimal_literal (trim str) \<or> non_decimal_literal (trim str))"
  (is "?l = ?r")
proof
  assume ?l
  then obtain w1 lit w2 where w1: "\<forall>c \<in> set w1. is_space c" and w2: "\<forall>c \<in> set w2. is_space c"
    and lit: "lit = [] \<or> decimal_literal lit \<or> non_decimal_literal lit"
    and s: "str = w1 @ lit @ w2"
    unfolding numeric_string_def by blast
  show ?r
  proof (cases "lit = []")
    case True
    have "\<forall>c \<in> set (w1 @ w2). is_space c" using w1 w2 by auto
    then have "trim (w1 @ w2) = []" by (rule trim_spaces)
    then show ?thesis unfolding s True by simp
  next
    case False
    have e: "\<not> is_space (hd lit) \<and> \<not> is_space (last lit)"
      using lit False decimal_literal_ends(2,3) [of lit] non_decimal_literal_ends(2,3) [of lit]
      by blast
    have "trim str = lit"
      unfolding s using w1 w2 False e by (simp add: trim_around)
    with lit show ?thesis by simp
  qed
next
  assume r: ?r
  obtain w1 w2 where "\<forall>c \<in> set w1. is_space c" "\<forall>c \<in> set w2. is_space c"
    "str = w1 @ trim str @ w2"
    using trim_decompose [of str] by blast
  with r show ?l unfolding numeric_string_def by blast
qed

lemma based_NaN:
  "((case integer_literal b ds of None \<Rightarrow> NaN | Some n \<Rightarrow> number_for False (of_nat n)) = NaN) =
     (ds = [] \<or> (\<exists>c \<in> set ds. digit_value b c = None))"
  unfolding integer_literal_None [symmetric]
  by (simp add: number_for_not_NaN split: option.splits)

lemma to_number_NaN: "(to_number str = NaN) = (\<not> numeric_string str)"
proof -
  define s where "s = trim str"
  consider (empty) "s = []"
    | (hex) "s \<noteq> []" "take 2 s = ''0x'' \<or> take 2 s = ''0X''"
    | (octal) "s \<noteq> []" "take 2 s = ''0o'' \<or> take 2 s = ''0O''"
    | (binary) "s \<noteq> []" "take 2 s = ''0b'' \<or> take 2 s = ''0B''"
    | (decimal) "s \<noteq> []" "take 2 s \<notin> {''0x'', ''0X'', ''0o'', ''0O'', ''0b'', ''0B''}"
    by auto
  then have "(to_number str = NaN) = (s \<noteq> [] \<and> \<not> decimal_literal s \<and> \<not> non_decimal_literal s)"
  proof cases
    case empty
    then show ?thesis by (simp add: to_number_def s_def [symmetric])
  next
    case hex
    have "\<not> decimal_literal s"
      using hex(2) decimal_literal_not_prefixed(1,2) [of s] by blast
    moreover have "non_decimal_literal s =
        (drop 2 s \<noteq> [] \<and> (\<forall>c \<in> set (drop 2 s). is_hex_digit c))"
      using hex(2) by (auto simp: non_decimal_literal_iff)
    moreover have "(to_number str = NaN) =
        (drop 2 s = [] \<or> (\<exists>c \<in> set (drop 2 s). \<not> is_hex_digit c))"
      using hex based_NaN [of 16 "drop 2 s"]
      by (simp add: to_number_def s_def [symmetric] digit_value_16)
    ultimately show ?thesis using hex(1) by blast
  next
    case octal
    have "\<not> decimal_literal s"
      using octal(2) decimal_literal_not_prefixed(3,4) [of s] by blast
    moreover have "non_decimal_literal s =
        (drop 2 s \<noteq> [] \<and> (\<forall>c \<in> set (drop 2 s). is_octal_digit c))"
      using octal(2) by (auto simp: non_decimal_literal_iff)
    moreover have "(to_number str = NaN) =
        (drop 2 s = [] \<or> (\<exists>c \<in> set (drop 2 s). \<not> is_octal_digit c))"
      using octal based_NaN [of 8 "drop 2 s"]
      by (auto simp: to_number_def s_def [symmetric] digit_value_8)
    ultimately show ?thesis using octal(1) by blast
  next
    case binary
    have "\<not> decimal_literal s"
      using binary(2) decimal_literal_not_prefixed(5,6) [of s] by blast
    moreover have "non_decimal_literal s =
        (drop 2 s \<noteq> [] \<and> (\<forall>c \<in> set (drop 2 s). is_binary_digit c))"
      using binary(2) by (auto simp: non_decimal_literal_iff)
    moreover have "(to_number str = NaN) =
        (drop 2 s = [] \<or> (\<exists>c \<in> set (drop 2 s). \<not> is_binary_digit c))"
      using binary based_NaN [of 2 "drop 2 s"]
      by (auto simp: to_number_def s_def [symmetric] digit_value_2)
    ultimately show ?thesis using binary(1) by blast
  next
    case decimal
    have "\<not> non_decimal_literal s"
      using decimal(2) by (auto simp: non_decimal_literal_iff)
    moreover have "to_number str = str_decimal s"
      using decimal by (simp add: to_number_def s_def [symmetric])
    moreover have "(str_decimal s = NaN) = (\<not> decimal_literal s)"
      using str_decimal_literal [of s] literal_str_decimal [of s] by blast
    ultimately show ?thesis using decimal(1) by simp
  qed
  then show ?thesis
    unfolding numeric_string_trim s_def by blast
qed

section \<open>The header loop and a single chunk\<close>

lemma header_loop_succeeds:
  "\<forall>header \<in> set hp. header \<noteq> [] \<longrightarrow> indexOf header '':'' \<noteq> - 1
     \<Longrightarrow> \<exists>hs. header_loop hp h = Inr hs"
  by (induction hp arbitrary: h) (simp_all add: Let_def)

lemma single_chunk:
  "indexOf b CRLFCRLF \<noteq> - 1 \<Longrightarrow>
     run [] [EmitReadable [b]] =
       decode b \<lparr>buffers = [b], buffersLength = length b, queue = [], delivered = [b],
                 on_readable = False, on_end = True, on_error = True, destroyed = False,
                 promise = Pending\<rparr>"
  by (simp add: run_def parseProxyResponse_def read.simps ondata.simps Let_def Buffer_concat_def)

section \<open>Splitting, joining and decoding\<close>

lemma clear_high_bit:
  "(of_char c :: nat) < 128 \<Longrightarrow>
     (case c of Char b0 b1 b2 b3 b4 b5 b6 b7 \<Rightarrow> Char b0 b1 b2 b3 b4 b5 b6 False) = c"
  by (cases c) (auto split: if_splits)

lemma toString_ascii_seven_bit: "seven_bit s \<Longrightarrow> toString_ascii s = s"
  by (induction s) (simp_all add: seven_bit_def toString_ascii_def clear_high_bit)

lemma js_split_no_separator:
  "sep \<noteq> [] \<Longrightarrow> hd sep \<notin> set l \<Longrightarrow> js_split l sep = [l]"
proof (induction l)
  case Nil
  then show ?case by simp
next
  case (Cons c l)
  from Cons.prems have "take (length sep) (c # l) \<noteq> sep"
    by (cases sep) auto
  with Cons show ?case by simp
qed

lemma js_split_at_separator:
  assumes "sep \<noteq> []"
  shows "js_split (sep @ rest) sep = [] # js_split rest sep"
proof -
  obtain c cs where e: "sep @ rest = c # cs"
    using assms by (cases sep) auto
  have t: "take (length sep) (sep @ rest) = sep" and d: "drop (length sep) (sep @ rest) = rest"
    by simp_all
  have "js_split (c # cs) sep = [] # js_split rest sep"
    using t d assms unfolding e by (subst js_split.simps) simp
  then show ?thesis unfolding e .
qed

lemma js_split_piece:
  "sep \<noteq> [] \<Longrightarrow> hd sep \<notin> set l \<Longrightarrow> js_split (l @ sep @ rest) sep = l # js_split rest sep"
proof (induction l)
  case Nil
  then show ?case by (simp add: js_split_at_separator)
next
  case (Cons c l)
  from Cons.prems have "take (length sep) (c # l @ sep @ rest) \<noteq> sep"
    by (cases sep) auto
  with Cons show ?case by simp
qed

lemma js_split_join:
  "sep \<noteq> [] \<Longrightarrow> ls \<noteq> [] \<Longrightarrow> \<forall>l \<in> set ls. hd sep \<notin> set l
     \<Longrightarrow> js_split (js_join ls sep) sep = ls"
proof (induction ls sep rule: js_join.induct)
  case (1 sep)
  then show ?case by simp
next
  case (2 x sep)
  then show ?case by (simp add: js_split_no_separator)
next
  case (3 x y ys sep)
  then show ?case by (simp add: js_split_piece)
qed

lemma digits_value_decimal:
  "\<forall>c \<in> set s. is_digit c \<Longrightarrow>
     digits_value 10 s acc = Some (foldl (\<lambda>n c. n * 10 + (of_char c - 48)) acc s)"
  by (induction s arbitrary: acc) (auto simp: is_digit_def digit_value_def Let_def)

lemma digit_not_space: "is_digit c \<Longrightarrow> \<not> is_space c"
  by (auto simp: is_digit_def is_space_def Let_def)

lemma trim_digits:
  assumes "\<forall>c \<in> set s. is_digit c"
  shows "trim s = s"
proof (cases "s = []")
  case True
  then show ?thesis by (simp add: trim_def)
next
  case False
  then have "hd s \<in> set s" "last s \<in> set s" by simp_all
  with assms have "\<not> is_space (hd s)" "\<not> is_space (last s)"
    using digit_not_space by blast+
  then have "dropWhile is_space s = s" "dropWhile is_space (rev s) = rev s"
    using False by (simp_all add: dropWhile_eq_self_iff hd_rev)
  then show ?thesis by (simp add: trim_def)
qed

lemma unsigned_decimal_digits:
  assumes "code \<noteq> []" and "\<forall>c \<in> set code. is_digit c"
  shows "unsigned_decimal code = Some (of_nat (decimal code))"
proof -
  have tw: "takeWhile is_digit code = code" and dw: "dropWhile is_digit code = []"
    using assms(2) by simp_all
  show ?thesis
    unfolding unsigned_decimal_def Let_def tw dw
    using assms(1)
    by (simp add: digits_value_decimal [OF assms(2)] exponent_part_def decimal_def)
qed

lemma to_number_digits:
  assumes "code \<noteq> []" and "\<forall>c \<in> set code. is_digit c"
  shows "to_number code = number_for False (of_nat (decimal code))"
proof -
  have no: "CHR ''x'' \<notin> set code" "CHR ''X'' \<notin> set code" "CHR ''o'' \<notin> set code"
    "CHR ''O'' \<notin> set code" "CHR ''b'' \<notin> set code" "CHR ''B'' \<notin> set code"
    "CHR ''+'' \<notin> set code" "CHR ''-'' \<notin> set code" "CHR ''I'' \<notin> set code"
    using assms(2) by (auto simp: is_digit_def)
  have prefix: "\<And>a b. take 2 code = [a, b] \<Longrightarrow> b \<in> set code"
    by (metis in_set_takeD list.set_intros(1,2))
  have hd: "hd code \<in> set code" using assms(1) by simp
  have sign: "hd code \<noteq> CHR ''+''" "hd code \<noteq> CHR ''-''"
    using hd no by auto
  have inf: "code \<noteq> ''Infinity''" using no(9) by auto
  have "str_decimal code = number_for False (of_nat (decimal code))"
    using sign inf assms(1) by (simp add: str_decimal_def unsigned_decimal_digits [OF assms])
  moreover have "take 2 code \<noteq> ''0x''" "take 2 code \<noteq> ''0X''" "take 2 code \<noteq> ''0o''"
    "take 2 code \<noteq> ''0O''" "take 2 code \<noteq> ''0b''" "take 2 code \<noteq> ''0B''"
    using prefix no by blast+
  ultimately show ?thesis
    using assms(1) by (simp add: to_number_def trim_digits [OF assms(2)])
qed

lemma js_join_snoc_empty: "ls \<noteq> [] \<Longrightarrow> js_join (ls @ [[]]) sep = js_join ls sep @ sep"
  by (induction ls sep rule: js_join.induct) simp_all

lemma header_loop_skips_empty_lines:
  "header_loop (ls @ [[], []]) h = header_loop ls h"
proof (induction ls arbitrary: h)
  case Nil
  show ?case by simp
next
  case (Cons l ls)
  then show ?case by (simp add: Let_def)
qed

lemma indexOf_first_char:
  "c \<notin> set u \<Longrightarrow> indexOf (u @ c # v) [c] = int (length u)"
  by (induction u) (auto simp: Let_def)

lemma map_of_update_property:
  "map_of (update_property key v h) = (map_of h)(key \<mapsto> v)"
  by (induction h) (auto simp: fun_eq_iff)

lemma map_of_add_header:
  assumes "CHR '':'' \<notin> set name" and "map_of h ''__proto__'' = None"
  shows "map_of (add_header (header_line (name, value)) (length name) h) key =
           (if key = ''__proto__'' then None
            else if key = toLowerCase name then one_more (map_of h key) (trimStart value)
            else map_of h key)"
proof -
  have parts: "take (length name) (header_line (name, value)) = name"
    "drop (Suc (length name)) (header_line (name, value)) = value"
    by (simp_all add: header_line_def)
  show ?thesis
  proof (cases "map_of h (toLowerCase name)")
    case None
    then show ?thesis
      using assms(2)
      by (simp add: add_header_def parts assign_def map_of_update_property Let_def)
  next
    case (Some cur)
    then have "toLowerCase name \<noteq> ''__proto__''" using assms(2) by auto
    with Some show ?thesis
      using assms(2)
      by (cases cur) (simp_all add: add_header_def parts assign_def map_of_update_property Let_def)
  qed
qed

lemma header_loop_folds:
  assumes "\<forall>nv \<in> set hs. CHR '':'' \<notin> set (fst nv)" and "map_of h ''__proto__'' = None"
  shows "\<exists>h'. header_loop (map header_line hs) h = Inr h' \<and>
           (\<forall>key. map_of h' key =
              (if key = ''__proto__'' then None
               else foldl one_more (map_of h key) (values_of key hs)))"
  using assms
proof (induction hs arbitrary: h)
  case Nil
  then show ?case by (simp add: values_of_def)
next
  case (Cons nv hs)
  obtain name "value" where nv: "nv = (name, value)" by (cases nv)
  let ?h1 = "add_header (header_line (name, value)) (length name) h"
  have name: "CHR '':'' \<notin> set name" using Cons.prems(1) nv by simp
  have colon: "indexOf (header_line (name, value)) '':'' = int (length name)"
    using indexOf_first_char [OF name] by (simp add: header_line_def)
  have nonempty: "header_line (name, value) \<noteq> []" by (simp add: header_line_def)
  have step: "header_loop (map header_line (nv # hs)) h = header_loop (map header_line hs) ?h1"
    using colon nonempty by (simp add: nv Let_def)
  have h1: "\<And>key. map_of ?h1 key =
           (if key = ''__proto__'' then None
            else if key = toLowerCase name then one_more (map_of h key) (trimStart value)
            else map_of h key)"
    by (rule map_of_add_header [OF name Cons.prems(2)])
  then have "map_of ?h1 ''__proto__'' = None" by simp
  moreover have "\<forall>nv \<in> set hs. CHR '':'' \<notin> set (fst nv)" using Cons.prems(1) by simp
  ultimately obtain h' where h': "header_loop (map header_line hs) ?h1 = Inr h'"
    "\<And>key. map_of h' key =
              (if key = ''__proto__'' then None
               else foldl one_more (map_of ?h1 key) (values_of key hs))"
    using Cons.IH [of ?h1] by blast
  have "\<And>key. map_of h' key =
              (if key = ''__proto__'' then None
               else foldl one_more (map_of h key) (values_of key (nv # hs)))"
    by (simp add: h'(2) h1 nv values_of_def)
  with h'(1) step show ?case by simp
qed

lemma foldl_one_more_Multi:
  "foldl one_more (Some (Multi cs)) vs = Some (Multi (cs @ vs))"
  by (induction vs arbitrary: cs) simp_all

lemma foldl_one_more_None: "foldl one_more None vs = collected vs"
proof (cases vs)
  case Nil
  then show ?thesis by simp
next
  case (Cons v ws)
  then show ?thesis by (cases ws) (simp_all add: foldl_one_more_Multi)
qed

lemma seven_bit_append: "seven_bit (xs @ ys) = (seven_bit xs \<and> seven_bit ys)"
  by (auto simp: seven_bit_def)

lemma seven_bit_CRLF: "seven_bit CRLF" "seven_bit CRLFCRLF"
  by (simp_all add: seven_bit_def CRLF_def CRLFCRLF_def CR_def LF_def)

lemma js_join_nonempty: "x \<noteq> [] \<Longrightarrow> js_join (x # xs) sep \<noteq> []"
  by (cases xs) simp_all

lemma seven_bit_Nil: "seven_bit []"
  by (simp add: seven_bit_def)

lemma seven_bit_js_join:
  "\<forall>l \<in> set ls. seven_bit l \<Longrightarrow> seven_bit sep \<Longrightarrow> seven_bit (js_join ls sep)"
  by (induction ls sep rule: js_join.induct) (simp_all add: seven_bit_append seven_bit_Nil)

lemma js_join_terminator:
  assumes "ls \<noteq> []"
  shows "js_join (ls @ [[], []]) CRLF = js_join ls CRLF @ CRLFCRLF"
proof -
  have "js_join ((ls @ [[]]) @ [[]]) CRLF = js_join (ls @ [[]]) CRLF @ CRLF"
    by (rule js_join_snoc_empty) simp
  also have "js_join (ls @ [[]]) CRLF = js_join ls CRLF @ CRLF"
    using assms by (rule js_join_snoc_empty)
  finally show ?thesis by (simp add: CRLF_def CRLFCRLF_def)
qed

lemma response_has_terminator: "indexOf (xs @ CRLFCRLF) CRLFCRLF \<noteq> - 1"
  using indexOf_occurs [of xs CRLFCRLF "[]"] by simp

lemma response_lines:
  assumes "\<forall>l \<in> set (first # ls). CR \<notin> set l \<and> seven_bit l"
  shows "js_split (toString_ascii (js_join (first # ls) CRLF @ CRLFCRLF)) CRLF =
           first # (ls @ [[], []])"
proof -
  let ?b = "js_join (first # ls) CRLF @ CRLFCRLF"
  have "\<forall>l \<in> set (first # ls). seven_bit l" using assms by simp
  then have "seven_bit (js_join (first # ls) CRLF)"
    using seven_bit_CRLF(1) by (rule seven_bit_js_join)
  then have "seven_bit ?b"
    by (simp add: seven_bit_append seven_bit_CRLF)
  then have ascii: "toString_ascii ?b = ?b" by (rule toString_ascii_seven_bit)
  have b: "?b = js_join ((first # ls) @ [[], []]) CRLF"
    by (rule js_join_terminator [symmetric]) simp
  have "\<forall>l \<in> set ((first # ls) @ [[], []]). hd CRLF \<notin> set l"
    using assms by (simp add: CRLF_def)
  then have "js_split (js_join ((first # ls) @ [[], []]) CRLF) CRLF = (first # ls) @ [[], []]"
    by (rule js_split_join [rotated 2]) (simp_all add: CRLF_def)
  then have "js_split ?b CRLF = first # (ls @ [[], []])"
    unfolding b [symmetric] by simp
  then show ?thesis
    by (simp only: ascii)
qed

section \<open>The first terminator\<close>

lemma indexOf_bound:
  "indexOf s pat \<noteq> - 1 \<Longrightarrow> indexOf s pat + int (length pat) \<le> int (length s)"
proof (induction s)
  case Nil
  then show ?case by (simp split: if_splits)
next
  case (Cons c cs)
  show ?case
  proof (cases "take (length pat) (c # cs) = pat")
    case True
    then have "length pat \<le> length (c # cs)"
      by (metis length_take min.cobounded1)
    with True show ?thesis by simp
  next
    case False
    with Cons.prems have "indexOf cs pat \<noteq> - 1"
      by (auto simp: Let_def split: if_splits)
    with Cons.IH False show ?thesis by (simp add: Let_def)
  qed
qed

lemma take_append_prefix:
  "length pat \<le> length xs \<Longrightarrow> take (length pat) (xs @ ys) = take (length pat) xs"
  by simp

lemma indexOf_append_found:
  "indexOf p pat \<noteq> - 1 \<Longrightarrow> indexOf (p @ r) pat = indexOf p pat"
proof (induction p)
  case Nil
  then have "pat = []" by (simp split: if_splits)
  then show ?case by (cases r) simp_all
next
  case (Cons c cs)
  have len: "length pat \<le> length (c # cs)"
    using indexOf_bound [OF Cons.prems] indexOf_ge [of "c # cs" pat] Cons.prems by linarith
  have same: "take (length pat) ((c # cs) @ r) = take (length pat) (c # cs)"
    using len by (rule take_append_prefix)
  show ?case
  proof (cases "take (length pat) (c # cs) = pat")
    case True
    with same show ?thesis by simp
  next
    case False
    with Cons.prems have "indexOf cs pat \<noteq> - 1"
      by (auto simp: Let_def split: if_splits)
    then have "indexOf (cs @ r) pat = indexOf cs pat" by (rule Cons.IH)
    with False same show ?thesis by (simp add: Let_def)
  qed
qed

lemma first_terminator_in_prefix:
  assumes "ends_with_first_terminator (p @ r)" and "indexOf p CRLFCRLF \<noteq> - 1"
  shows "r = []"
proof -
  have "indexOf (p @ r) CRLFCRLF = indexOf p CRLFCRLF"
    using assms(2) by (rule indexOf_append_found)
  moreover have "indexOf p CRLFCRLF + int (length CRLFCRLF) \<le> int (length p)"
    using assms(2) by (rule indexOf_bound)
  ultimately have "int (length (p @ r)) \<le> int (length p)"
    using assms(1) by (simp add: ends_with_first_terminator_def CRLFCRLF_def)
  then show ?thesis by simp
qed

lemma decode_promise:
  "promise st = Pending \<Longrightarrow> promise st' = Pending \<Longrightarrow>
     promise (decode b st) = promise (decode b st')"
  by (simp add: decode_def reject_def resolve_def destroy_def cleanup_def Let_def
      split: list.split sum.split)

lemma decode_settles: "promise st = Pending \<Longrightarrow> promise (decode b st) \<noteq> Pending"
  by (simp add: decode_def reject_def resolve_def destroy_def cleanup_def Let_def
      split: list.split sum.split)

lemma emit_settled:
  assumes "consistent arrival st" and "promise st \<noteq> Pending"
  shows "promise (emit ev st) = promise st"
proof (cases ev)
  case (EmitReadable chunks)
  from assms have "\<not> on_readable st" by (simp add: consistent_def)
  with EmitReadable show ?thesis by (simp add: Let_def)
next
  case EmitEnd
  with assms(2) show ?thesis by (simp add: onend_def reject_def cleanup_def)
next
  case (EmitError err)
  with assms(2) show ?thesis by (simp add: onerror_def reject_def cleanup_def)
qed

lemma read_decodes:
  "reading st \<Longrightarrow> queue st = q \<Longrightarrow>
   ends_with_first_terminator (concat (delivered st @ q)) \<Longrightarrow> promise st' = Pending \<Longrightarrow>
     promise (read st) = promise (decode (concat (delivered st @ q)) st')"
proof (induction q arbitrary: st)
  case Nil
  then show ?case
    by (simp add: reading_def ends_with_first_terminator_def)
next
  case (Cons b q)
  let ?st' = "st\<lparr>queue := q, delivered := delivered st @ [b]\<rparr>"
  let ?st1 = "?st'\<lparr>buffers := buffers ?st' @ [b], buffersLength := buffersLength ?st' + length b\<rparr>"
  have step: "read st = ondata b ?st'"
    using Cons.prems(1,2) by (simp add: read.simps)
  have buffered: "Buffer_concat (buffers ?st1) (buffersLength ?st1) = concat (delivered ?st1)"
    using Cons.prems(1) by (simp add: reading_def Buffer_concat_def)
  have all: "concat (delivered st @ b # q) = concat (delivered ?st1) @ concat q"
    by simp
  show ?case
  proof (cases "indexOf (concat (delivered ?st1)) CRLFCRLF = - 1")
    case True
    then have "ondata b ?st' = read ?st1"
      using buffered by (simp add: ondata.simps Let_def)
    moreover have "reading ?st1"
      using Cons.prems(1) True by (simp add: reading_def)
    moreover have "queue ?st1 = q" by simp
    moreover have "ends_with_first_terminator (concat (delivered ?st1 @ q))"
      using Cons.prems(3) by simp
    ultimately have "promise (read st) = promise (decode (concat (delivered ?st1 @ q)) st')"
      using Cons.IH [of ?st1] Cons.prems(4) step by simp
    then show ?thesis by simp
  next
    case False
    then have o: "ondata b ?st' = decode (concat (delivered ?st1)) ?st1"
      using buffered by (simp add: ondata.simps Let_def)
    have "ends_with_first_terminator (concat (delivered ?st1) @ concat q)"
      using Cons.prems(3) unfolding all .
    then have e: "concat q = []"
      using False by (rule first_terminator_in_prefix)
    have whole: "concat (delivered st @ b # q) = concat (delivered ?st1)"
      unfolding all e by simp
    have "promise ?st1 = Pending"
      using Cons.prems(1) by (simp add: reading_def)
    then have "promise (decode (concat (delivered ?st1)) ?st1) =
                 promise (decode (concat (delivered ?st1)) st')"
      using Cons.prems(4) by (rule decode_promise)
    then have "promise (read st) = promise (decode (concat (delivered ?st1)) st')"
      unfolding step o .
    then show ?thesis unfolding whole .
  qed
qed

lemma run_decodes:
  "ends_with_first_terminator (concat (q @ concat css)) \<Longrightarrow> promise st' = Pending \<Longrightarrow>
     promise (run q (map EmitReadable css) :: 'e state) =
       promise (decode (concat (q @ concat css)) (st' :: 'e state))"
proof (induction css rule: rev_induct)
  case Nil
  let ?st0 = "\<lparr>buffers = [], buffersLength = 0, queue = q, delivered = [],
           on_readable = False, on_end = True, on_error = True, destroyed = False,
           promise = Pending\<rparr> :: 'e state"
  have "reading ?st0" by (simp add: reading_def CRLFCRLF_def)
  moreover have "queue ?st0 = q" by simp
  moreover have "ends_with_first_terminator (concat (delivered ?st0 @ q))"
    using Nil.prems(1) by simp
  ultimately have "promise (read ?st0) = promise (decode (concat (delivered ?st0 @ q)) st')"
    using Nil.prems(2) by (rule read_decodes)
  then show ?case by (simp add: run_def parseProxyResponse_def)
next
  case (snoc cs css)
  let ?prev = "run q (map EmitReadable css) :: 'e state"
  let ?p = "concat (q @ concat css)"
  have all: "concat (q @ concat (css @ [cs])) = ?p @ concat cs" by simp
  have cons: "consistent (q @ concat css) ?prev"
    using run_consistent [of q "map EmitReadable css"] by (simp add: arrived_readable)
  show ?case
  proof (cases "indexOf ?p CRLFCRLF = - 1")
    case True
    then have pending: "promise ?prev = Pending" by (rule run_readable_pending)
    let ?st1 = "?prev\<lparr>queue := queue ?prev @ cs, on_readable := False\<rparr>"
    have d: "delivered ?st1 = q @ concat css"
      using cons pending by (auto simp: consistent_def)
    have "reading ?st1"
      using cons pending by (simp add: consistent_def reading_def)
    moreover have "queue ?st1 = cs"
      using cons pending by (simp add: consistent_def)
    moreover have "ends_with_first_terminator (concat (delivered ?st1 @ cs))"
      using snoc.prems(1) unfolding d by simp
    ultimately have "promise (read ?st1) = promise (decode (concat (delivered ?st1 @ cs)) st')"
      using snoc.prems(2) by (rule read_decodes)
    moreover have "on_readable ?prev"
      using cons by (simp add: consistent_def pending)
    ultimately show ?thesis
      unfolding d by (simp add: run_snoc Let_def)
  next
    case False
    have "ends_with_first_terminator (?p @ concat cs)"
      using snoc.prems(1) unfolding all .
    then have e: "concat cs = []"
      using False by (rule first_terminator_in_prefix)
    have pe: "?p @ concat cs = ?p" unfolding e by simp
    have "ends_with_first_terminator ?p"
      using \<open>ends_with_first_terminator (?p @ concat cs)\<close> unfolding pe .
    then have prev: "promise ?prev = promise (decode ?p st')"
      using snoc.prems(2) by (rule snoc.IH)
    then have "promise ?prev \<noteq> Pending"
      using decode_settles [OF snoc.prems(2)] by simp
    with cons have "promise (emit (EmitReadable cs) ?prev) = promise ?prev"
      by (rule emit_settled)
    moreover have "run q (map EmitReadable (css @ [cs])) = emit (EmitReadable cs) ?prev"
      by (simp add: run_snoc)
    ultimately have "promise (run q (map EmitReadable (css @ [cs])) :: 'e state) =
                       promise (decode ?p st')"
      using prev by simp
    then show ?thesis unfolding all pe .
  qed
qed

lemma read_decodes_at:
  "reading st \<Longrightarrow> queue st = pre @ c # post \<Longrightarrow>
   indexOf (concat (delivered st @ pre)) CRLFCRLF = - 1 \<Longrightarrow>
   indexOf (concat (delivered st @ pre @ [c])) CRLFCRLF \<noteq> - 1 \<Longrightarrow>
   promise st' = Pending \<Longrightarrow>
     promise (read st) = promise (decode (concat (delivered st @ pre @ [c])) st')"
proof (induction pre arbitrary: st)
  case Nil
  let ?st' = "st\<lparr>queue := post, delivered := delivered st @ [c]\<rparr>"
  let ?st1 = "?st'\<lparr>buffers := buffers ?st' @ [c], buffersLength := buffersLength ?st' + length c\<rparr>"
  have step: "read st = ondata c ?st'"
    using Nil.prems(1,2) by (simp add: read.simps)
  have buffered: "Buffer_concat (buffers ?st1) (buffersLength ?st1) = concat (delivered ?st1)"
    using Nil.prems(1) by (simp add: reading_def Buffer_concat_def)
  have found: "indexOf (concat (delivered ?st1)) CRLFCRLF \<noteq> - 1"
    using Nil.prems(4) by simp
  then have o: "ondata c ?st' = decode (concat (delivered ?st1)) ?st1"
    using buffered by (simp add: ondata.simps Let_def)
  have "promise ?st1 = Pending"
    using Nil.prems(1) by (simp add: reading_def)
  then have "promise (decode (concat (delivered ?st1)) ?st1) =
               promise (decode (concat (delivered ?st1)) st')"
    using Nil.prems(5) by (rule decode_promise)
  then have "promise (read st) = promise (decode (concat (delivered ?st1)) st')"
    unfolding step o .
  then show ?case by simp
next
  case (Cons b pre)
  let ?st' = "st\<lparr>queue := pre @ c # post, delivered := delivered st @ [b]\<rparr>"
  let ?st1 = "?st'\<lparr>buffers := buffers ?st' @ [b], buffersLength := buffersLength ?st' + length b\<rparr>"
  have step: "read st = ondata b ?st'"
    using Cons.prems(1,2) by (simp add: read.simps)
  have buffered: "Buffer_concat (buffers ?st1) (buffersLength ?st1) = concat (delivered ?st1)"
    using Cons.prems(1) by (simp add: reading_def Buffer_concat_def)
  have "indexOf (concat (delivered st @ [b]) @ concat pre) CRLFCRLF = - 1"
    using Cons.prems(3) by simp
  then have "indexOf (concat (delivered st @ [b])) CRLFCRLF = - 1"
    by (rule indexOf_absent_prefix)
  then have none: "indexOf (concat (delivered ?st1)) CRLFCRLF = - 1"
    by simp
  then have o: "ondata b ?st' = read ?st1"
    using buffered by (simp add: ondata.simps Let_def)
  have "reading ?st1"
    using Cons.prems(1) none by (simp add: reading_def)
  moreover have "queue ?st1 = pre @ c # post" by simp
  moreover have "indexOf (concat (delivered ?st1 @ pre)) CRLFCRLF = - 1"
    using Cons.prems(3) by simp
  moreover have "indexOf (concat (delivered ?st1 @ pre @ [c])) CRLFCRLF \<noteq> - 1"
    using Cons.prems(4) by simp
  ultimately have "promise (read ?st1) = promise (decode (concat (delivered ?st1 @ pre @ [c])) st')"
    using Cons.prems(5) by (rule Cons.IH)
  then show ?case
    unfolding step o by simp
qed

lemma run_decodes_at:
  "q @ concat css = pre @ c # post \<Longrightarrow>
   indexOf (concat pre) CRLFCRLF = - 1 \<Longrightarrow>
   indexOf (concat (pre @ [c])) CRLFCRLF \<noteq> - 1 \<Longrightarrow>
   promise st' = Pending \<Longrightarrow>
     promise (run q (map EmitReadable css) :: 'e state) =
       promise (decode (concat (pre @ [c])) (st' :: 'e state))"
proof (induction css arbitrary: post rule: rev_induct)
  case Nil
  let ?st0 = "\<lparr>buffers = [], buffersLength = 0, queue = q, delivered = [],
           on_readable = False, on_end = True, on_error = True, destroyed = False,
           promise = Pending\<rparr> :: 'e state"
  have "reading ?st0" by (simp add: reading_def CRLFCRLF_def)
  moreover have "queue ?st0 = pre @ c # post" using Nil.prems(1) by simp
  moreover have "indexOf (concat (delivered ?st0 @ pre)) CRLFCRLF = - 1"
    using Nil.prems(2) by simp
  moreover have "indexOf (concat (delivered ?st0 @ pre @ [c])) CRLFCRLF \<noteq> - 1"
    using Nil.prems(3) by simp
  ultimately have "promise (read ?st0) =
                     promise (decode (concat (delivered ?st0 @ pre @ [c])) st')"
    using Nil.prems(4) by (rule read_decodes_at)
  then show ?case by (simp add: run_def parseProxyResponse_def)
next
  case (snoc cs css)
  let ?prev = "run q (map EmitReadable css) :: 'e state"
  let ?a = "q @ concat css"
  have cons: "consistent ?a ?prev"
    using run_consistent [of q "map EmitReadable css"] by (simp add: arrived_readable)
  have step: "run q (map EmitReadable (css @ [cs])) = emit (EmitReadable cs) ?prev"
    by (simp add: run_snoc)
  have "?a @ cs = pre @ c # post" using snoc.prems(1) by simp
  then consider (before) post' where "?a = pre @ c # post'"
    | (within) us where "pre = ?a @ us" "cs = us @ c # post"
    by (auto simp: append_eq_append_conv2 append_eq_Cons_conv Cons_eq_append_conv)
  then show ?case
  proof cases
    case before
    then have prev: "promise ?prev = promise (decode (concat (pre @ [c])) st')"
      using snoc.prems(2,3,4) by (rule snoc.IH)
    then have "promise ?prev \<noteq> Pending"
      using decode_settles [OF snoc.prems(4)] by simp
    with cons have "promise (emit (EmitReadable cs) ?prev) = promise ?prev"
      by (rule emit_settled)
    with prev show ?thesis unfolding step by simp
  next
    case within
    have "indexOf (concat ?a @ concat us) CRLFCRLF = - 1"
      using snoc.prems(2) unfolding within(1) by simp
    then have "indexOf (concat ?a) CRLFCRLF = - 1"
      by (rule indexOf_absent_prefix)
    then have pending: "promise ?prev = Pending"
      using run_readable_pending [of q css] by simp
    let ?st1 = "?prev\<lparr>queue := queue ?prev @ cs, on_readable := False\<rparr>"
    have d: "delivered ?st1 = ?a"
      using cons pending by (auto simp: consistent_def)
    have "reading ?st1"
      using cons pending by (simp add: consistent_def reading_def)
    moreover have "queue ?st1 = us @ c # post"
      using cons pending within(2) by (simp add: consistent_def)
    moreover have "indexOf (concat (delivered ?st1 @ us)) CRLFCRLF = - 1"
      using snoc.prems(2) unfolding d within(1) .
    moreover have "indexOf (concat (delivered ?st1 @ us @ [c])) CRLFCRLF \<noteq> - 1"
      using snoc.prems(3) unfolding d within(1) by simp
    ultimately have "promise (read ?st1) =
                       promise (decode (concat (delivered ?st1 @ us @ [c])) st')"
      using snoc.prems(4) by (rule read_decodes_at)
    moreover have "on_readable ?prev"
      using cons by (simp add: consistent_def pending)
    ultimately show ?thesis
      unfolding step d within(1) by (simp add: Let_def)
  qed
qed

section \<open>The claims\<close>

text \<open>
  C1. The example of the specification, run on the code. With the trailing payload
  \<open><tunnel-bytes>\<close> in the same chunk, \<open>split\<close> is applied to the whole buffer, so
  the payload comes out as one more line of \<open>headerParts\<close>; it has no colon, and the
  promise is rejected with the invalid-header error instead of being resolved. Without
  the payload the same response resolves with the values the example gives.
\<close>

theorem example_with_tunnel_bytes_is_rejected:
  "promise (run [] [EmitReadable [''HTTP/1.1 200 Connection established'' @ CRLF @
                                  ''Proxy-agent: test'' @ CRLFCRLF @ ''<tunnel-bytes>'']]
             :: unit state) =
     Rejected (Error (''Invalid header from proxy CONNECT response: '' @ [CHR 0x22] @
                      ''<tunnel-bytes>'' @ [CHR 0x22])) \<and>
   promise (run [] [EmitReadable [''HTTP/1.1 200 Connection established'' @ CRLF @
                                  ''Proxy-agent: test'' @ CRLFCRLF]]
             :: unit state) =
     Resolved \<lparr>connect = \<lparr>statusCode = Num 200, statusText = ''Connection established'',
                              headers = [(''proxy-agent'', Single ''test'')]\<rparr>,
               buffered = ''HTTP/1.1 200 Connection established'' @ CRLF @
                          ''Proxy-agent: test'' @ CRLFCRLF\<rparr>"
  by code_simp

text \<open>
  C2. One response, delivered in two ways. In a single chunk the bytes after the
  terminator are split into lines with the rest and the promise is rejected; with a
  chunk boundary right after the terminator the promise is resolved before the
  payload is read. The two deliveries do not give the same result.
\<close>

theorem chunk_boundary_changes_the_outcome:
  "promise (run [] [EmitReadable [''HTTP/1.1 200 OK'' @ CRLFCRLF @ ''foo'']] :: unit state) =
     Rejected (Error (invalid_header_message ''foo'')) \<and>
   promise (run [] [EmitReadable [''HTTP/1.1 200 OK'' @ CRLFCRLF], EmitReadable [''foo'']]
             :: unit state) =
     Resolved \<lparr>connect = \<lparr>statusCode = Num 200, statusText = ''OK'', headers = []\<rparr>,
               buffered = ''HTTP/1.1 200 OK'' @ CRLFCRLF\<rparr>"
  by code_simp

text \<open>
  C3. Bytes after the terminator are treated as header lines: a payload without a
  colon rejects the promise as an invalid header, and a payload of the form
  \<open>B: 2\<close> adds the entry \<open>b\<close> to \<open>headers\<close>.
\<close>

theorem bytes_after_terminator_read_as_header_lines:
  "promise (run [] [EmitReadable [''HTTP/1.1 200 OK'' @ CRLF @ ''A: 1'' @ CRLFCRLF @ ''payload'']]
             :: unit state) =
     Rejected (Error (invalid_header_message ''payload'')) \<and>
   promise (run [] [EmitReadable [''HTTP/1.1 200 OK'' @ CRLF @ ''A: 1'' @ CRLFCRLF @ ''B: 2'']]
             :: unit state) =
     Resolved \<lparr>connect = \<lparr>statusCode = Num 200, statusText = ''OK'',
                              headers = [(''a'', Single ''1''), (''b'', Single ''2'')]\<rparr>,
               buffered = ''HTTP/1.1 200 OK'' @ CRLF @ ''A: 1'' @ CRLFCRLF @ ''B: 2''\<rparr>"
  by code_simp

text \<open>
  C4. When the promise resolves, \<open>buffered\<close> is the concatenation, in the order of
  arrival, of every chunk \<open>socket.read()\<close> has returned, the bytes after the
  terminator included; and the chunks read are the first of those that arrived, none
  skipped or reordered.
\<close>

theorem buffered_is_every_chunk_read:
  "promise (run q evs) = Resolved r \<Longrightarrow>
     buffered r = concat (delivered (run q evs)) \<and>
     delivered (run q evs) @ queue (run q evs) = q @ arrived evs"
  using run_consistent [of q evs] by (simp add: consistent_def)

theorem buffered_is_every_chunk_read_witness:
  "promise (run [] [EmitReadable [''HTTP/1.1 200 OK'' @ CRLF], EmitReadable [CRLF @ ''a:b'']]
             :: unit state) =
     Resolved \<lparr>connect = \<lparr>statusCode = Num 200, statusText = ''OK'',
                                  headers = [(''a'', Single ''b'')]\<rparr>,
               buffered = ''HTTP/1.1 200 OK'' @ CRLFCRLF @ ''a:b''\<rparr> \<and>
   ''HTTP/1.1 200 OK'' @ CRLFCRLF @ ''a:b'' =
     concat (delivered (run [] [EmitReadable [''HTTP/1.1 200 OK'' @ CRLF],
                                EmitReadable [CRLF @ ''a:b'']] :: unit state)) \<and>
   delivered (run [] [EmitReadable [''HTTP/1.1 200 OK'' @ CRLF], EmitReadable [CRLF @ ''a:b'']]
               :: unit state) @
   queue (run [] [EmitReadable [''HTTP/1.1 200 OK'' @ CRLF], EmitReadable [CRLF @ ''a:b'']]
               :: unit state) =
     [] @ arrived [EmitReadable [''HTTP/1.1 200 OK'' @ CRLF], EmitReadable [CRLF @ ''a:b'']
               :: unit event]"
proof -
  have h: "promise (run [] [EmitReadable [''HTTP/1.1 200 OK'' @ CRLF], EmitReadable [CRLF @ ''a:b'']]
             :: unit state) =
     Resolved \<lparr>connect = \<lparr>statusCode = Num 200, statusText = ''OK'',
                                  headers = [(''a'', Single ''b'')]\<rparr>,
               buffered = ''HTTP/1.1 200 OK'' @ CRLFCRLF @ ''a:b''\<rparr>"
    by code_simp
  show ?thesis
    using h buffered_is_every_chunk_read [OF h] by simp
qed

text \<open>
  C5. On the two rejections of the decoder \<open>cleanup\<close> is not called: \<open>onend\<close> and
  \<open>onerror\<close> are still registered after the promise was rejected for a missing status
  line or for a header line without a colon. An end of the stream arriving afterwards
  runs \<open>onend\<close> once more; it cannot change the settled promise, but it does change
  the state, removing the listeners only then.
\<close>

theorem listeners_stay_after_invalid_structure:
  "promise (run [] [EmitReadable [CRLFCRLF]] :: unit state) =
     Rejected (Error ''No header received from proxy CONNECT response'') \<and>
   on_end (run [] [EmitReadable [CRLFCRLF]] :: unit state) \<and>
   on_error (run [] [EmitReadable [CRLFCRLF]] :: unit state) \<and>
   promise (run [] [EmitReadable [''HTTP/1.1 200 Connection Established'' @ CRLF @ ''foo'' @
                                  CRLFCRLF]] :: unit state) =
     Rejected (Error (invalid_header_message ''foo'')) \<and>
   on_end (run [] [EmitReadable [''HTTP/1.1 200 Connection Established'' @ CRLF @ ''foo'' @
                                 CRLFCRLF]] :: unit state) \<and>
   on_error (run [] [EmitReadable [''HTTP/1.1 200 Connection Established'' @ CRLF @ ''foo'' @
                                   CRLFCRLF]] :: unit state) \<and>
   run [] [EmitReadable [CRLFCRLF], EmitEnd] =
     cleanup (run [] [EmitReadable [CRLFCRLF]] :: unit state) \<and>
   cleanup (run [] [EmitReadable [CRLFCRLF]] :: unit state) \<noteq> run [] [EmitReadable [CRLFCRLF]]"
  by code_simp

text \<open>
  C6. A response in one chunk with a valid status line and the single header
  \<open>__proto__: x\<close>: the assignment \<open>headers[key] = value\<close> stores nothing under that
  key, and the promise resolves with no header at all.
\<close>

theorem proto_header_is_not_stored:
  "promise (run [] [EmitReadable [''HTTP/1.1 200 OK'' @ CRLF @ ''__proto__: x'' @ CRLFCRLF]]
             :: unit state) =
     Resolved \<lparr>connect = \<lparr>statusCode = Num 200, statusText = ''OK'', headers = []\<rparr>,
               buffered = ''HTTP/1.1 200 OK'' @ CRLF @ ''__proto__: x'' @ CRLFCRLF\<rparr>"
  by code_simp

text \<open>
  C7. A header name that comes twice, with the values \<open>a\<close> then \<open>b\<close>: for the name
  \<open>__proto__\<close> nothing is stored at the first occurrence, so nothing is there to be
  turned into a list at the second, and \<open>headers\<close> stays empty. For a name such as
  \<open>X-Via\<close> three occurrences are collected in order.
\<close>

theorem repeated_proto_header_is_not_collected:
  "promise (run [] [EmitReadable [''HTTP/1.1 200 OK'' @ CRLF @ ''__proto__: a'' @ CRLF @
                                  ''__proto__: b'' @ CRLFCRLF]] :: unit state) =
     Resolved \<lparr>connect = \<lparr>statusCode = Num 200, statusText = ''OK'', headers = []\<rparr>,
               buffered = ''HTTP/1.1 200 OK'' @ CRLF @ ''__proto__: a'' @ CRLF @
                          ''__proto__: b'' @ CRLFCRLF\<rparr> \<and>
   promise (run [] [EmitReadable [''HTTP/1.1 200 OK'' @ CRLF @ ''X-Via: a'' @ CRLF @
                                  ''X-Via: b'' @ CRLF @ ''X-Via: c'' @ CRLFCRLF]] :: unit state) =
     Resolved \<lparr>connect = \<lparr>statusCode = Num 200, statusText = ''OK'',
                              headers = [(''x-via'', Multi [''a'', ''b'', ''c''])]\<rparr>,
               buffered = ''HTTP/1.1 200 OK'' @ CRLF @ ''X-Via: a'' @ CRLF @
                          ''X-Via: b'' @ CRLF @ ''X-Via: c'' @ CRLFCRLF\<rparr>"
  by code_simp

text \<open>
  C8. After any sequence of events the socket has been destroyed exactly when the
  promise was rejected with one of the two errors of the decoder: no status line, or a
  header line without a colon. It is therefore not destroyed while the promise is
  pending, after a resolution, after the rejection at the end of the stream, or after
  the rejection with the stream's own error. Both errors occur: the input
  \<open>"\r\n\r\n"\<close> is rejected for its missing status line, and a response with the
  header line \<open>foo\<close> for that line, the socket being destroyed each time. A valid
  response, the end of the stream and an error of the stream leave the socket as it is.
\<close>

theorem destroyed_exactly_on_invalid_structure:
  "destroyed (run q evs) =
     (promise (run q evs) = Rejected (Error ''No header received from proxy CONNECT response'') \<or>
      (\<exists>header. promise (run q evs) = Rejected (Error (invalid_header_message header)))) \<and>
   promise (run [] [EmitReadable [CRLFCRLF]] :: unit state) =
     Rejected (Error ''No header received from proxy CONNECT response'') \<and>
   destroyed (run [] [EmitReadable [CRLFCRLF]] :: unit state) \<and>
   promise (run [] [EmitReadable [''HTTP/1.1 200 Connection Established'' @ CRLF @
                                  ''foo'' @ CRLFCRLF]] :: unit state) =
     Rejected (Error (invalid_header_message ''foo'')) \<and>
   destroyed (run [] [EmitReadable [''HTTP/1.1 200 Connection Established'' @ CRLF @
                                    ''foo'' @ CRLFCRLF]] :: unit state) \<and>
   promise (run [] [EmitReadable [''HTTP/1.1 200 Connection Established'' @ CRLF @
                                  ''A: 1'' @ CRLF @ ''foo'' @ CRLF @ ''B: 2'' @ CRLFCRLF]]
            :: unit state) =
     Rejected (Error (invalid_header_message ''foo'')) \<and>
   destroyed (run [] [EmitReadable [''HTTP/1.1 200 Connection Established'' @ CRLF @
                                    ''A: 1'' @ CRLF @ ''foo'' @ CRLF @ ''B: 2'' @ CRLFCRLF]]
              :: unit state) \<and>
   (\<exists>r. promise (run [] [EmitReadable [''HTTP/1.1 200 Connection Established'' @ CRLF @
                                        ''A: 1'' @ CRLFCRLF]] :: unit state) = Resolved r) \<and>
   \<not> destroyed (run [] [EmitReadable [''HTTP/1.1 200 Connection Established'' @ CRLF @
                                      ''A: 1'' @ CRLFCRLF]] :: unit state) \<and>
   promise (run [] [EmitReadable [''HTTP/1.1 200''], EmitEnd] :: unit state) =
     Rejected (Error ''Proxy connection ended before receiving CONNECT response'') \<and>
   \<not> destroyed (run [] [EmitReadable [''HTTP/1.1 200''], EmitEnd] :: unit state) \<and>
   promise (run [] [EmitReadable [''HTTP/1.1 200''], EmitError ()] :: unit state) =
     Rejected (StreamError ()) \<and>
   \<not> destroyed (run [] [EmitReadable [''HTTP/1.1 200''], EmitError ()] :: unit state)"
proof -
  have general: "destroyed (run q evs) =
     (promise (run q evs) = Rejected (Error ''No header received from proxy CONNECT response'') \<or>
      (\<exists>header. promise (run q evs) = Rejected (Error (invalid_header_message header))))"
  proof (cases "promise (run q evs)")
    case Pending
    then show ?thesis
      using run_consistent [of q evs] by (simp add: consistent_def)
  next
    case (Resolved r)
    then show ?thesis
      using run_consistent [of q evs] by (simp add: consistent_def)
  next
    case (Rejected f)
    then show ?thesis
      using run_consistent [of q evs] by (cases f) (simp_all add: consistent_def)
  qed
  have missing: "promise (run [] [EmitReadable [CRLFCRLF]] :: unit state) =
     Rejected (Error ''No header received from proxy CONNECT response'') \<and>
   destroyed (run [] [EmitReadable [CRLFCRLF]] :: unit state)"
    by code_simp
  have malformed: "promise (run [] [EmitReadable [''HTTP/1.1 200 Connection Established'' @ CRLF @
                                  ''foo'' @ CRLFCRLF]] :: unit state) =
     Rejected (Error (invalid_header_message ''foo'')) \<and>
   destroyed (run [] [EmitReadable [''HTTP/1.1 200 Connection Established'' @ CRLF @
                                    ''foo'' @ CRLFCRLF]] :: unit state)"
    by code_simp
  have later: "promise (run [] [EmitReadable [''HTTP/1.1 200 Connection Established'' @ CRLF @
                                  ''A: 1'' @ CRLF @ ''foo'' @ CRLF @ ''B: 2'' @ CRLFCRLF]]
            :: unit state) =
     Rejected (Error (invalid_header_message ''foo'')) \<and>
   destroyed (run [] [EmitReadable [''HTTP/1.1 200 Connection Established'' @ CRLF @
                                    ''A: 1'' @ CRLF @ ''foo'' @ CRLF @ ''B: 2'' @ CRLFCRLF]]
              :: unit state)"
    by code_simp
  have "promise (run [] [EmitReadable [''HTTP/1.1 200 Connection Established'' @ CRLF @
                                        ''A: 1'' @ CRLFCRLF]] :: unit state) =
     Resolved \<lparr>connect = \<lparr>statusCode = Num 200, statusText = ''Connection Established'',
                          headers = [(''a'', Single ''1'')]\<rparr>,
               buffered = ''HTTP/1.1 200 Connection Established'' @ CRLF @ ''A: 1'' @ CRLFCRLF\<rparr>"
    by code_simp
  then have resolved: "\<exists>r. promise (run [] [EmitReadable [''HTTP/1.1 200 Connection Established'' @
                                        CRLF @ ''A: 1'' @ CRLFCRLF]] :: unit state) = Resolved r"
    by (rule exI)
  have kept: "\<not> destroyed (run [] [EmitReadable [''HTTP/1.1 200 Connection Established'' @ CRLF @
                                      ''A: 1'' @ CRLFCRLF]] :: unit state)"
    by code_simp
  have ended: "promise (run [] [EmitReadable [''HTTP/1.1 200''], EmitEnd] :: unit state) =
     Rejected (Error ''Proxy connection ended before receiving CONNECT response'') \<and>
   \<not> destroyed (run [] [EmitReadable [''HTTP/1.1 200''], EmitEnd] :: unit state)"
    by code_simp
  have failed: "promise (run [] [EmitReadable [''HTTP/1.1 200''], EmitError ()] :: unit state) =
     Rejected (StreamError ()) \<and>
   \<not> destroyed (run [] [EmitReadable [''HTTP/1.1 200''], EmitError ()] :: unit state)"
    by code_simp
  from general missing malformed later resolved kept ended failed show ?thesis
    by (intro conjI) (erule conjunct1 conjunct2 | assumption)+
qed

text \<open>
  C9. If no terminator occurs in all the bytes that arrive (there may be none at all),
  the end of the stream rejects the promise with the fixed message, and an error of the
  stream rejects it with that very error.
\<close>

theorem ended_or_failed_before_terminator:
  assumes "indexOf (concat (q @ concat css)) CRLFCRLF = - 1"
  shows "promise (run q (map EmitReadable css @ [EmitEnd]) :: 'e state) =
           Rejected (Error ''Proxy connection ended before receiving CONNECT response'') \<and>
         promise (run q (map EmitReadable css @ [EmitError (err :: 'e)])) =
           Rejected (StreamError err)"
proof -
  let ?st = "run q (map EmitReadable css) :: 'e state"
  have pending: "promise ?st = Pending"
    using assms by (rule run_readable_pending)
  have "consistent (q @ concat css) ?st"
    using run_consistent [of q "map EmitReadable css"] by (simp add: arrived_readable)
  then have "on_end ?st" "on_error ?st"
    by (simp_all add: consistent_def pending)
  with pending show ?thesis
    by (simp add: run_snoc onend_def onerror_def reject_def cleanup_def)
qed

theorem ended_or_failed_before_terminator_witness:
  "indexOf (concat ([] @ concat [[''HTTP/1.1 200'']])) CRLFCRLF = - 1 \<and>
   promise (run [] (map EmitReadable [[''HTTP/1.1 200'']] @ [EmitEnd]) :: nat state) =
     Rejected (Error ''Proxy connection ended before receiving CONNECT response'') \<and>
   promise (run [] (map EmitReadable [[''HTTP/1.1 200'']] @ [EmitError (7 :: nat)])) =
     Rejected (StreamError 7)"
proof -
  have h: "indexOf (concat ([] @ concat [[''HTTP/1.1 200'']])) CRLFCRLF = - 1"
    by (simp add: CRLFCRLF_def CR_def LF_def)
  show ?thesis
    using h ended_or_failed_before_terminator [OF h, of "7 :: nat"] by simp
qed

text \<open>
  C10, as stated, fails for an empty second token: the status line \<open>HTTP/1.1  OK\<close>
  (two spaces) has the empty string as its second token, and the unary plus turns it
  into 0, not into not-a-number.
\<close>

theorem empty_status_token_is_zero:
  "at_index (js_split ''HTTP/1.1  OK'' '' '') 1 = Some [] \<and>
   promise (run [] [EmitReadable [''HTTP/1.1  OK'' @ CRLFCRLF]] :: unit state) =
     Resolved \<lparr>connect = \<lparr>statusCode = Num 0, statusText = ''OK'', headers = []\<rparr>,
               buffered = ''HTTP/1.1  OK'' @ CRLFCRLF\<rparr> \<and>
   Num 0 \<noteq> NaN"
  by code_simp

text \<open>
  C10, amended. However the bytes are delivered, let \<open>c\<close> be the chunk that completes
  the first terminator and \<open>pre\<close> the chunks read before it. If the first line of
  these bytes is not empty and every other non-empty line contains a colon, the promise
  resolves whatever the second token of the first line is: \<open>statusCode\<close> is the
  numeric coercion of that token and \<open>statusText\<close> the remaining tokens joined by
  single spaces. The coercion is not-a-number exactly when the token is absent or is
  not a numeric string of the language; the empty token is a numeric string, and its
  coercion is 0.
\<close>

theorem status_token_never_rejects:
  assumes "q @ concat css = pre @ c # post"
    and "indexOf (concat pre) CRLFCRLF = - 1"
    and "indexOf (concat (pre @ [c])) CRLFCRLF \<noteq> - 1"
    and "js_split (toString_ascii (concat (pre @ [c]))) CRLF = firstLine # headerParts"
    and "firstLine \<noteq> []"
    and "\<forall>header \<in> set headerParts. header \<noteq> [] \<longrightarrow> indexOf header '':'' \<noteq> - 1"
  shows "(\<exists>hs. header_loop headerParts [] = Inr hs \<and>
            promise (run q (map EmitReadable css) :: 'e state) =
            Resolved \<lparr>connect =
                        \<lparr>statusCode = unary_plus (at_index (js_split firstLine '' '') 1),
                         statusText = js_join (drop 2 (js_split firstLine '' '')) '' '',
                         headers = hs\<rparr>,
                      buffered = concat (pre @ [c])\<rparr>) \<and>
         (length (js_split firstLine '' '') < 2 \<longrightarrow>
            unary_plus (at_index (js_split firstLine '' '') 1) = NaN) \<and>
         (\<forall>tok. at_index (js_split firstLine '' '') 1 = Some tok \<longrightarrow>
            (unary_plus (at_index (js_split firstLine '' '') 1) = NaN) =
            (\<not> numeric_string tok)) \<and>
         (at_index (js_split firstLine '' '') 1 = Some [] \<longrightarrow>
            unary_plus (at_index (js_split firstLine '' '') 1) = Num 0)"
proof -
  define b where "b = concat (pre @ [c])"
  let ?st = "\<lparr>buffers = [], buffersLength = 0, queue = [], delivered = [],
             on_readable = False, on_end = True, on_error = True, destroyed = False,
             promise = Pending\<rparr> :: 'e state"
  obtain hs where hs: "header_loop headerParts [] = Inr hs"
    using header_loop_succeeds [OF assms(6)] by blast
  have "promise (run q (map EmitReadable css) :: 'e state) = promise (decode b ?st)"
    unfolding b_def using assms(1,2,3) by (rule run_decodes_at) simp
  also have "\<dots> = Resolved \<lparr>connect =
                        \<lparr>statusCode = unary_plus (at_index (js_split firstLine '' '') 1),
                         statusText = js_join (drop 2 (js_split firstLine '' '')) '' '',
                         headers = hs\<rparr>,
                      buffered = b\<rparr>"
    using assms(4) [folded b_def] assms(5) hs
    by (simp add: decode_def Let_def resolve_def cleanup_def)
  finally have "promise (run q (map EmitReadable css) :: 'e state) =
            Resolved \<lparr>connect =
                        \<lparr>statusCode = unary_plus (at_index (js_split firstLine '' '') 1),
                         statusText = js_join (drop 2 (js_split firstLine '' '')) '' '',
                         headers = hs\<rparr>,
                      buffered = concat (pre @ [c])\<rparr>"
    unfolding b_def .
  with hs have resolved: "\<exists>hs. header_loop headerParts [] = Inr hs \<and>
            promise (run q (map EmitReadable css) :: 'e state) =
            Resolved \<lparr>connect =
                        \<lparr>statusCode = unary_plus (at_index (js_split firstLine '' '') 1),
                         statusText = js_join (drop 2 (js_split firstLine '' '')) '' '',
                         headers = hs\<rparr>,
                      buffered = concat (pre @ [c])\<rparr>"
    by blast
  have absent: "length (js_split firstLine '' '') < 2 \<longrightarrow>
            unary_plus (at_index (js_split firstLine '' '') 1) = NaN"
    by (simp add: at_index_def unary_plus_def)
  have present: "\<forall>tok. at_index (js_split firstLine '' '') 1 = Some tok \<longrightarrow>
            (unary_plus (at_index (js_split firstLine '' '') 1) = NaN) =
            (\<not> numeric_string tok)"
    by (simp add: unary_plus_def to_number_NaN)
  have empty: "at_index (js_split firstLine '' '') 1 = Some [] \<longrightarrow>
            unary_plus (at_index (js_split firstLine '' '') 1) = Num 0"
    by (simp add: unary_plus_def to_number_def trim_def)
  from resolved absent present empty show ?thesis by (intro conjI)
qed

theorem status_token_never_rejects_witness:
  "[] @ concat [[''HTTP/1.1 200px''], ['' OK'' @ CRLF @ ''A: 1'' @ CRLFCRLF]] =
     [''HTTP/1.1 200px''] @ ('' OK'' @ CRLF @ ''A: 1'' @ CRLFCRLF) # [] \<and>
   indexOf (concat [''HTTP/1.1 200px'']) CRLFCRLF = - 1 \<and>
   indexOf (concat ([''HTTP/1.1 200px''] @ ['' OK'' @ CRLF @ ''A: 1'' @ CRLFCRLF])) CRLFCRLF \<noteq> - 1 \<and>
   js_split (toString_ascii (concat ([''HTTP/1.1 200px''] @ ['' OK'' @ CRLF @ ''A: 1'' @ CRLFCRLF])))
     CRLF = ''HTTP/1.1 200px OK'' # [''A: 1'', [], []] \<and>
   ''HTTP/1.1 200px OK'' \<noteq> [] \<and>
   at_index (js_split ''HTTP/1.1 200px OK'' '' '') 1 = Some ''200px'' \<and>
   \<not> numeric_string ''200px'' \<and>
   (\<exists>hs. promise (run [] (map EmitReadable [[''HTTP/1.1 200px''],
                                             ['' OK'' @ CRLF @ ''A: 1'' @ CRLFCRLF]])
                 :: unit state) =
            Resolved \<lparr>connect = \<lparr>statusCode = NaN, statusText = ''OK'', headers = hs\<rparr>,
                      buffered = concat ([''HTTP/1.1 200px''] @
                                         ['' OK'' @ CRLF @ ''A: 1'' @ CRLFCRLF])\<rparr>)"
proof -
  have h1: "[] @ concat [[''HTTP/1.1 200px''], ['' OK'' @ CRLF @ ''A: 1'' @ CRLFCRLF]] =
     [''HTTP/1.1 200px''] @ ('' OK'' @ CRLF @ ''A: 1'' @ CRLFCRLF) # []"
    by simp
  have h2: "indexOf (concat [''HTTP/1.1 200px'']) CRLFCRLF = - 1"
    by code_simp
  have h3: "indexOf (concat ([''HTTP/1.1 200px''] @ ['' OK'' @ CRLF @ ''A: 1'' @ CRLFCRLF]))
              CRLFCRLF \<noteq> - 1"
    by code_simp
  have h4: "js_split (toString_ascii (concat ([''HTTP/1.1 200px''] @
                                               ['' OK'' @ CRLF @ ''A: 1'' @ CRLFCRLF])))
     CRLF = ''HTTP/1.1 200px OK'' # [''A: 1'', [], []]"
    by code_simp
  have h5: "''HTTP/1.1 200px OK'' \<noteq> []" by simp
  have h6: "\<forall>header \<in> set [''A: 1'', [], []]. header \<noteq> [] \<longrightarrow> indexOf header '':'' \<noteq> - 1"
    by simp
  have h7: "at_index (js_split ''HTTP/1.1 200px OK'' '' '') 1 = Some ''200px''"
    by code_simp
  have h8: "unary_plus (at_index (js_split ''HTTP/1.1 200px OK'' '' '') 1) = NaN"
    by code_simp
  have h9: "js_join (drop 2 (js_split ''HTTP/1.1 200px OK'' '' '')) '' '' = ''OK''"
    by code_simp
  note t = status_token_never_rejects [OF h1 h2 h3 h4 h5 h6, where ?'e = unit]
  from t h7 have "(unary_plus (at_index (js_split ''HTTP/1.1 200px OK'' '' '') 1) = NaN) =
            (\<not> numeric_string ''200px'')"
    by blast
  with h8 have h10: "\<not> numeric_string ''200px''"
    by blast
  from t have "\<exists>hs. header_loop [''A: 1'', [], []] [] = Inr hs \<and>
            promise (run [] (map EmitReadable [[''HTTP/1.1 200px''],
                                             ['' OK'' @ CRLF @ ''A: 1'' @ CRLFCRLF]])
                 :: unit state) =
            Resolved \<lparr>connect =
                        \<lparr>statusCode = unary_plus (at_index (js_split ''HTTP/1.1 200px OK'' '' '') 1),
                         statusText = js_join (drop 2 (js_split ''HTTP/1.1 200px OK'' '' '')) '' '',
                         headers = hs\<rparr>,
                      buffered = concat ([''HTTP/1.1 200px''] @
                                         ['' OK'' @ CRLF @ ''A: 1'' @ CRLFCRLF])\<rparr>"
    by (rule conjunct1)
  then have "\<exists>hs. promise (run [] (map EmitReadable [[''HTTP/1.1 200px''],
                                             ['' OK'' @ CRLF @ ''A: 1'' @ CRLFCRLF]])
                 :: unit state) =
            Resolved \<lparr>connect =
                        \<lparr>statusCode = unary_plus (at_index (js_split ''HTTP/1.1 200px OK'' '' '') 1),
                         statusText = js_join (drop 2 (js_split ''HTTP/1.1 200px OK'' '' '')) '' '',
                         headers = hs\<rparr>,
                      buffered = concat ([''HTTP/1.1 200px''] @
                                         ['' OK'' @ CRLF @ ''A: 1'' @ CRLFCRLF])\<rparr>"
    by blast
  then have r: "\<exists>hs. promise (run [] (map EmitReadable [[''HTTP/1.1 200px''],
                                             ['' OK'' @ CRLF @ ''A: 1'' @ CRLFCRLF]])
                 :: unit state) =
            Resolved \<lparr>connect = \<lparr>statusCode = NaN, statusText = ''OK'', headers = hs\<rparr>,
                      buffered = concat ([''HTTP/1.1 200px''] @
                                         ['' OK'' @ CRLF @ ''A: 1'' @ CRLFCRLF])\<rparr>"
    unfolding h8 h9 .
  from h1 h2 h3 h4 h5 h7 h10 r show ?thesis by (intro conjI)
qed

section \<open>Further properties\<close>

text \<open>
  X1. Once the promise is settled no later event changes it, whether or not the
  listeners were removed.
\<close>

theorem settled_promise_is_final:
  "promise (run q evs) \<noteq> Pending \<Longrightarrow> promise (run q (evs @ evs')) = promise (run q evs)"
proof (induction evs' rule: rev_induct)
  case Nil
  show ?case by simp
next
  case (snoc ev evs')
  have "consistent (q @ arrived (evs @ evs')) (run q (evs @ evs'))"
    by (rule run_consistent)
  moreover have "promise (run q (evs @ evs')) \<noteq> Pending"
    using snoc by simp
  ultimately have "promise (emit ev (run q (evs @ evs'))) = promise (run q (evs @ evs'))"
    by (rule emit_settled)
  then show ?case
    using snoc run_snoc [of q "evs @ evs'" ev] by simp
qed

theorem settled_promise_is_final_witness:
  "promise (run [] [EmitReadable [CRLFCRLF]] :: unit state) \<noteq> Pending \<and>
   promise (run [] ([EmitReadable [CRLFCRLF]] @ [EmitEnd, EmitError ()]) :: unit state) =
     promise (run [] [EmitReadable [CRLFCRLF]])"
proof -
  have h: "promise (run [] [EmitReadable [CRLFCRLF]] :: unit state) \<noteq> Pending"
    by code_simp
  show ?thesis
    using h settled_promise_is_final [OF h, of "[EmitEnd, EmitError ()]"] by simp
qed

text \<open>
  X2. The loop over header lines of the form name, colon, value (no colon in the name)
  never fails, and maps every lower-cased name other than \<open>__proto__\<close> to the values
  declared under it, in order: a single value as a string, several as a list. Nothing
  is stored under \<open>__proto__\<close>.
\<close>

theorem header_loop_collects:
  assumes "\<forall>nv \<in> set hs. CHR '':'' \<notin> set (fst nv)"
  shows "\<exists>h. header_loop (map header_line hs) [] = Inr h \<and>
           (\<forall>key. map_of h key =
              (if key = ''__proto__'' then None else collected (values_of key hs)))"
proof -
  have "map_of ([] :: headers) ''__proto__'' = None" by simp
  from header_loop_folds [OF assms this]
  obtain h where h: "header_loop (map header_line hs) [] = Inr h"
    and m: "\<And>key. map_of h key =
              (if key = ''__proto__'' then None
               else foldl one_more (map_of [] key) (values_of key hs))"
    by blast
  have "\<And>key. map_of h key =
              (if key = ''__proto__'' then None else collected (values_of key hs))"
    by (simp add: m foldl_one_more_None)
  with h show ?thesis by blast
qed

theorem header_loop_collects_witness:
  "\<exists>h. header_loop (map header_line [(''X-Via'', '' a''), (''Host'', ''h''), (''x-via'', ''b'')]) [] =
          Inr h \<and>
        map_of h ''x-via'' = Some (Multi [''a'', ''b'']) \<and>
        map_of h ''host'' = Some (Single ''h'') \<and>
        map_of h ''__proto__'' = None"
proof -
  have names: "\<forall>nv \<in> set [(''X-Via'', '' a''), (''Host'', ''h''), (''x-via'', ''b'')].
                 CHR '':'' \<notin> set (fst nv)"
    by simp
  have v1: "collected (values_of ''x-via'' [(''X-Via'', '' a''), (''Host'', ''h''), (''x-via'', ''b'')]) =
              Some (Multi [''a'', ''b''])"
    by code_simp
  have v2: "collected (values_of ''host'' [(''X-Via'', '' a''), (''Host'', ''h''), (''x-via'', ''b'')]) =
              Some (Single ''h'')"
    by code_simp
  have n1: "''x-via'' \<noteq> ''__proto__''" and n2: "''host'' \<noteq> ''__proto__''"
    by simp_all
  from header_loop_collects [OF names]
  obtain h where h: "header_loop (map header_line [(''X-Via'', '' a''), (''Host'', ''h''),
                                                  (''x-via'', ''b'')]) [] = Inr h"
    and m: "\<And>key. map_of h key =
              (if key = ''__proto__'' then None
               else collected (values_of key [(''X-Via'', '' a''), (''Host'', ''h''),
                                              (''x-via'', ''b'')]))"
    by blast
  have "map_of h ''x-via'' = Some (Multi [''a'', ''b''])"
    unfolding m [of "''x-via''"] using n1 v1 by (simp only: if_False)
  moreover have "map_of h ''host'' = Some (Single ''h'')"
    unfolding m [of "''host''"] using n2 v2 by (simp only: if_False)
  moreover have "map_of h ''__proto__'' = None"
    unfolding m [of "''__proto__''"] by (simp only: refl if_True)
  ultimately show ?thesis using h by blast
qed

text \<open>
  X3. A response in one chunk, made of a status line of space-free tokens (a non-empty
  version, a code of decimal digits, any reason words), header lines with colon-free
  names, and the empty line, all in 7-bit text without CR inside a line: the promise
  resolves with the Number of the code, the reason words joined by single spaces, the
  headers as in X2, and the whole chunk as \<open>buffered\<close>.
\<close>

theorem valid_response_in_one_chunk:
  assumes tokens: "\<forall>t \<in> set (version # code # reason). CHR '' '' \<notin> set t"
    and version: "version \<noteq> []"
    and code: "code \<noteq> []" "\<forall>c \<in> set code. is_digit c"
    and names: "\<forall>nv \<in> set hs. CHR '':'' \<notin> set (fst nv)"
    and lines: "\<forall>l \<in> set (js_join (version # code # reason) '' '' # map header_line hs).
                  CR \<notin> set l \<and> seven_bit l"
  shows "\<exists>h. promise (run [] [EmitReadable [response (version # code # reason) hs]] :: 'e state) =
               Resolved \<lparr>connect = \<lparr>statusCode = number_for False (of_nat (decimal code)),
                                        statusText = js_join reason '' '',
                                        headers = h\<rparr>,
                         buffered = response (version # code # reason) hs\<rparr> \<and>
             (\<forall>key. map_of h key =
                (if key = ''__proto__'' then None else collected (values_of key hs)))"
proof -
  define first where "first = js_join (version # code # reason) '' ''"
  define b where "b = response (version # code # reason) hs"
  have b: "b = js_join (first # map header_line hs) CRLF @ CRLFCRLF"
    by (simp only: b_def response_def first_def)
  have "\<forall>l \<in> set (first # map header_line hs). CR \<notin> set l \<and> seven_bit l"
    using lines by (simp only: first_def)
  then have split: "js_split (toString_ascii b) CRLF = first # (map header_line hs @ [[], []])"
    unfolding b by (rule response_lines)
  have first: "first \<noteq> []"
    unfolding first_def using version by (rule js_join_nonempty)
  have "js_split first '' '' = version # code # reason"
    unfolding first_def using tokens by (intro js_split_join) simp_all
  then have parts: "at_index (js_split first '' '') (Suc 0) = Some code"
    "drop 2 (js_split first '' '') = reason"
    by (simp_all add: at_index_def)
  obtain h where h: "header_loop (map header_line hs) [] = Inr h"
    and m: "\<forall>key. map_of h key =
                (if key = ''__proto__'' then None else collected (values_of key hs))"
    using header_loop_collects [OF names] by blast
  have loop: "header_loop (map header_line hs @ [[], []]) [] = Inr h"
    by (simp only: header_loop_skips_empty_lines h)
  have found: "indexOf b CRLFCRLF \<noteq> - 1"
    unfolding b by (rule response_has_terminator)
  have "promise (run [] [EmitReadable [b]] :: 'e state) =
               Resolved \<lparr>connect = \<lparr>statusCode = number_for False (of_nat (decimal code)),
                                        statusText = js_join reason '' '',
                                        headers = h\<rparr>,
                         buffered = b\<rparr>"
    by (simp add: single_chunk [OF found] decode_def split first parts loop unary_plus_def
        to_number_digits [OF code] resolve_def cleanup_def Let_def)
  with m show ?thesis unfolding b_def by blast
qed

theorem valid_response_in_one_chunk_witness:
  "''HTTP/1.1'' \<noteq> [] \<and> ''200'' \<noteq> [] \<and>
   response [''HTTP/1.1'', ''200'', ''Connection'', ''established'']
            [(''Proxy-Agent'', '' test''), (''Via'', ''a''), (''via'', '' b'')] =
     ''HTTP/1.1 200 Connection established'' @ CRLF @ ''Proxy-Agent: test'' @ CRLF @
     ''Via:a'' @ CRLF @ ''via: b'' @ CRLFCRLF \<and>
   (\<exists>h. promise (run [] [EmitReadable
                           [response [''HTTP/1.1'', ''200'', ''Connection'', ''established'']
                              [(''Proxy-Agent'', '' test''), (''Via'', ''a''), (''via'', '' b'')]]]
                 :: unit state) =
          Resolved \<lparr>connect = \<lparr>statusCode = Num 200,
                                   statusText = ''Connection established'',
                                   headers = h\<rparr>,
                    buffered = response [''HTTP/1.1'', ''200'', ''Connection'', ''established'']
                                 [(''Proxy-Agent'', '' test''), (''Via'', ''a''), (''via'', '' b'')]\<rparr> \<and>
        map_of h ''proxy-agent'' = Some (Single ''test'') \<and>
        map_of h ''via'' = Some (Multi [''a'', ''b'']))"
proof -
  let ?hs = "[(''Proxy-Agent'', '' test''), (''Via'', ''a''), (''via'', '' b'')]"
  have tokens: "\<forall>t \<in> set (''HTTP/1.1'' # ''200'' # [''Connection'', ''established'']).
                  CHR '' '' \<notin> set t"
    by simp
  have version: "''HTTP/1.1'' \<noteq> []" by simp
  have code: "''200'' \<noteq> []" "\<forall>c \<in> set ''200''. is_digit c"
    by (simp_all add: is_digit_def)
  have names: "\<forall>nv \<in> set ?hs. CHR '':'' \<notin> set (fst nv)"
    by simp
  have lines: "\<forall>l \<in> set (js_join (''HTTP/1.1'' # ''200'' # [''Connection'', ''established'']) '' '' #
                             map header_line ?hs).
                  CR \<notin> set l \<and> seven_bit l"
    by (simp add: header_line_def seven_bit_def CR_def)
  have r: "response [''HTTP/1.1'', ''200'', ''Connection'', ''established''] ?hs =
     ''HTTP/1.1 200 Connection established'' @ CRLF @ ''Proxy-Agent: test'' @ CRLF @
     ''Via:a'' @ CRLF @ ''via: b'' @ CRLFCRLF"
    by (simp add: response_def header_line_def)
  have d: "number_for False (of_nat (decimal ''200'')) = Num 200"
    by code_simp
  have t: "js_join [''Connection'', ''established''] '' '' = ''Connection established''"
    by simp
  have v1: "collected (values_of ''proxy-agent'' ?hs) = Some (Single ''test'')"
    by code_simp
  have v2: "collected (values_of ''via'' ?hs) = Some (Multi [''a'', ''b''])"
    by code_simp
  have n1: "''proxy-agent'' \<noteq> ''__proto__''" and n2: "''via'' \<noteq> ''__proto__''"
    by simp_all
  from valid_response_in_one_chunk [OF tokens version code names lines, where ?'e = unit]
  obtain h where
    p: "promise (run [] [EmitReadable
                           [response [''HTTP/1.1'', ''200'', ''Connection'', ''established''] ?hs]]
                 :: unit state) =
          Resolved \<lparr>connect = \<lparr>statusCode = number_for False (of_nat (decimal ''200'')),
                                   statusText = js_join [''Connection'', ''established''] '' '',
                                   headers = h\<rparr>,
                    buffered = response [''HTTP/1.1'', ''200'', ''Connection'', ''established'']
                                 ?hs\<rparr>"
    and m: "\<And>key. map_of h key =
              (if key = ''__proto__'' then None else collected (values_of key ?hs))"
    by blast
  have "map_of h ''proxy-agent'' = Some (Single ''test'')"
    unfolding m [of "''proxy-agent''"] using n1 v1 by (simp only: if_False)
  moreover have "map_of h ''via'' = Some (Multi [''a'', ''b''])"
    unfolding m [of "''via''"] using n2 v2 by (simp only: if_False)
  ultimately have "\<exists>h. promise (run [] [EmitReadable
                           [response [''HTTP/1.1'', ''200'', ''Connection'', ''established''] ?hs]]
                 :: unit state) =
          Resolved \<lparr>connect = \<lparr>statusCode = Num 200,
                                   statusText = ''Connection established'',
                                   headers = h\<rparr>,
                    buffered = response [''HTTP/1.1'', ''200'', ''Connection'', ''established'']
                                 ?hs\<rparr> \<and>
        map_of h ''proxy-agent'' = Some (Single ''test'') \<and>
        map_of h ''via'' = Some (Multi [''a'', ''b''])"
    using p unfolding d t by blast
  with version code(1) r show ?thesis by (intro conjI)
qed

text \<open>
  X4. When nothing follows the first terminator, the chunking does not matter: however
  the bytes are cut into chunks and spread over \<open>readable\<close> events, the promise is
  settled as it is for the same bytes in one chunk.
\<close>

theorem chunking_without_trailing_bytes:
  assumes "ends_with_first_terminator (concat (q @ concat css))"
  shows "promise (run q (map EmitReadable css) :: 'e state) =
           promise (run [] [EmitReadable [concat (q @ concat css)]] :: 'e state)"
proof -
  let ?b = "concat (q @ concat css)"
  let ?st = "\<lparr>buffers = [?b], buffersLength = length ?b, queue = [], delivered = [?b],
                 on_readable = False, on_end = True, on_error = True, destroyed = False,
                 promise = Pending\<rparr> :: 'e state"
  have "indexOf ?b CRLFCRLF \<noteq> - 1"
    using assms by (simp add: ends_with_first_terminator_def)
  then have "run [] [EmitReadable [?b]] = decode ?b ?st"
    by (rule single_chunk)
  moreover have "promise (run q (map EmitReadable css) :: 'e state) = promise (decode ?b ?st)"
    using assms by (rule run_decodes) simp
  ultimately show ?thesis by simp
qed

theorem chunking_without_trailing_bytes_witness:
  "ends_with_first_terminator
     (concat ([] @ concat [[''HTTP/1.1 200 OK'' @ [CR]], [[LF, CR], [LF]]])) \<and>
   promise (run [] (map EmitReadable [[''HTTP/1.1 200 OK'' @ [CR]], [[LF, CR], [LF]]])
             :: unit state) =
     promise (run [] [EmitReadable [concat ([] @ concat [[''HTTP/1.1 200 OK'' @ [CR]],
                                                          [[LF, CR], [LF]]])]] :: unit state)"
proof -
  have h: "ends_with_first_terminator
     (concat ([] @ concat [[''HTTP/1.1 200 OK'' @ [CR]], [[LF, CR], [LF]]]))"
    by code_simp
  from h chunking_without_trailing_bytes [OF h, where ?'e = unit]
  show ?thesis by (rule conjI)
qed

end
